theory Spec2Isabelle
  imports Main "HOL-Library.Sublist"
begin

chapter \<open>pdFetch: change tracking and reconciliation of the PDF folder\<close>

text \<open>
  The development follows the JavaScript sources module by module:
  \<^item> \<open>core/sn_tools\<close>: \<open>getArticlesList\<close>, \<open>fetchArticles\<close>, \<open>getKBChanges\<close>;
  \<^item> \<open>core/fs_tools\<close>: \<open>removeFolderContents\<close>;
  \<^item> \<open>core/session\<close>: \<open>canOpenSession\<close>, \<open>openSession\<close>, \<open>closeSession\<close>;
  \<^item> \<open>core/config_tools\<close>: \<open>getConfigData\<close>, \<open>mergeData\<close>;
  \<^item> \<open>business/operation\<close>: \<open>resetWorkspace\<close>, \<open>doListingOnly\<close>, \<open>doListingWithChanges\<close>,
    \<open>doListingWithFiles\<close>, \<open>doChangesWithFiles\<close>;
  \<^item> \<open>business/main\<close>: the part of \<open>mainExec\<close> that builds and validates the
    effective configuration and selects the operation.

  An asynchronous function that its caller awaits is modelled by its sequential effect
  on an explicit file system; the one call that is not awaited (\<open>removeFolderContents\<close>
  in \<open>fetchArticles\<close>) advances in steps that take turns with its caller. Every
  \<open>try\<close>/\<open>catch\<close> of the source is a case distinction on an error value. Messages sent
  to the monitoring callback are not modelled: the control flow never reads them back.
\<close>

section \<open>Change detection between two article lists (sn_tools, getKBChanges)\<close>

text \<open>
  One entry of the JSON list written by \<open>getArticlesList\<close>. Only the three properties
  that \<open>getKBChanges\<close> reads are named; every other property of the object
  (\<open>short_description\<close>, \<open>kb_knowledge_base\<close>, \<open>sys_domain\<close>, \<open>sys_updated_on\<close>,
  \<open>sys_updated_on_msecs\<close>) lives in the extension part of the record scheme.
  \<open>version_display_value\<close> stands for \<open>article.version.display_value\<close>.
\<close>

record article =
  sys_id :: string
  number :: string
  version_display_value :: string

text \<open>
  A JavaScript \<open>Map\<close>: entries are kept in the order in which their keys were first
  inserted; setting a key that is already present replaces its value in place.
  \<open>new Map(iterable)\<close> sets the pairs of the iterable one after the other.
\<close>

fun map_set :: "'k \<Rightarrow> 'v \<Rightarrow> ('k \<times> 'v) list \<Rightarrow> ('k \<times> 'v) list" where
  "map_set k v [] = [(k, v)]"
| "map_set k v (e # m) = (if fst e = k then (k, v) # m else e # map_set k v m)"

definition new_Map :: "('k \<times> 'v) list \<Rightarrow> ('k \<times> 'v) list" where
  "new_Map entries = foldl (\<lambda>m e. map_set (fst e) (snd e) m) [] entries"

definition map_has :: "('k \<times> 'v) list \<Rightarrow> 'k \<Rightarrow> bool" where
  "map_has m k = (map_of m k \<noteq> None)"

definition map_get :: "('k \<times> 'v) list \<Rightarrow> 'k \<Rightarrow> 'v option" where
  "map_get m k = map_of m k"

text \<open>The \<open>changes\<close> object: three arrays of article numbers.\<close>

record changes =
  added :: "string list"
  updated :: "string list"
  removed :: "string list"

text \<open>The body of \<open>currArticles.forEach\<close>: one step of the first loop.\<close>

definition classifyCurrent ::
  "(string \<times> 'a article_scheme) list \<Rightarrow> changes \<Rightarrow> string \<times> 'a article_scheme \<Rightarrow> changes" where
  "classifyCurrent olderArticles ch e =
     (case map_get olderArticles (fst e) of
        None \<Rightarrow> ch\<lparr>added := added ch @ [number (snd e)]\<rparr>
      | Some old \<Rightarrow>
          if version_display_value (snd e) \<noteq> version_display_value old
          then ch\<lparr>updated := updated ch @ [number (snd e)]\<rparr>
          else ch)"

text \<open>The body of \<open>olderArticles.forEach\<close>: one step of the second loop.\<close>

definition classifyOlder ::
  "(string \<times> 'a article_scheme) list \<Rightarrow> changes \<Rightarrow> string \<times> 'a article_scheme \<Rightarrow> changes" where
  "classifyOlder currArticles ch e =
     (if \<not> map_has currArticles (fst e)
      then ch\<lparr>removed := removed ch @ [number (snd e)]\<rparr>
      else ch)"

text \<open>
  The computation of \<open>getKBChanges\<close> between reading the two lists and writing the
  report: both maps are built from \<open>[article.sys_id, article]\<close> pairs, the current map is
  walked first, then the older one.
\<close>

definition kbChanges :: "'a article_scheme list \<Rightarrow> 'a article_scheme list \<Rightarrow> changes" where
  "kbChanges currList olderList =
     (let currArticles = new_Map (map (\<lambda>a. (sys_id a, a)) currList);
          olderArticles = new_Map (map (\<lambda>a. (sys_id a, a)) olderList);
          ch0 = \<lparr>added = [], updated = [], removed = []\<rparr>;
          ch1 = foldl (classifyCurrent olderArticles) ch0 currArticles
      in foldl (classifyOlder currArticles) ch1 olderArticles)"

subsection \<open>Reference notions used to state what the loops compute\<close>

text \<open>
  These three definitions are not taken from the source. They say, in the words of the
  specification, which record stands for an identity when a list holds several records
  with one \<open>sys_id\<close>: the identities in the order of their first occurrence, each with
  the last record that bears it.
\<close>

definition firstSeen :: "'k list \<Rightarrow> 'k list" where
  "firstSeen ks = rev (remdups (rev ks))"

definition lastBearing :: "'a article_scheme list \<Rightarrow> string \<Rightarrow> 'a article_scheme" where
  "lastBearing xs k = last (filter (\<lambda>a. sys_id a = k) xs)"

definition lastRecords :: "'a article_scheme list \<Rightarrow> 'a article_scheme list" where
  "lastRecords xs = map (lastBearing xs) (firstSeen (map sys_id xs))"

text \<open>
  An identity on which two lists differ: it is present in only one of them, or both
  hold it with different version labels.
\<close>

definition differsOn :: "'a article_scheme list \<Rightarrow> 'a article_scheme list \<Rightarrow> string \<Rightarrow> bool" where
  "differsOn currList olderList k =
     ((k \<in> sys_id ` set currList \<and> k \<notin> sys_id ` set olderList) \<or>
      (k \<in> sys_id ` set olderList \<and> k \<notin> sys_id ` set currList) \<or>
      (\<exists>a \<in> set currList. \<exists>b \<in> set olderList. sys_id a = k \<and> sys_id b = k \<and>
          version_display_value a \<noteq> version_display_value b))"

section \<open>The file system and the Node.js calls the program makes\<close>

text \<open>
  A path is the list of its segments below the root; the functions of
  \<open>business/operation\<close> document \<open>folderPath\<close> as an absolute path, and every path
  the program builds from it with \<open>path.join\<close> or \<open>path.resolve\<close> appends segments.
  A file holds what the program wrote into it: a list of articles (\<open>file_list.json\<close>),
  a change report (\<open>file_changes.json\<close>), a rendered article, or anything else (the lock
  file's UUID, foreign files). The file system is a finite table from paths to nodes.
\<close>

type_synonym path = "string list"

record report =
  last_updated_on :: string
  changes :: changes

datatype content =
    Snapshot "article list"
  | Report report
  | Pdf string
  | Other string

datatype node = Dir | File content

type_synonym fs = "(path \<times> node) list"

datatype js_error = ENOENT | ENOTDIR | EISDIR | ENOTEMPTY | TypeError | SyntaxError
  | BrowserFailed | SessionLocked

definition fs_lookup :: "fs \<Rightarrow> path \<Rightarrow> node option" where
  "fs_lookup fs p = map_of fs p"

definition fs_remove :: "path \<Rightarrow> fs \<Rightarrow> fs" where
  "fs_remove p fs = filter (\<lambda>e. fst e \<noteq> p) fs"

definition fs_put :: "path \<Rightarrow> node \<Rightarrow> fs \<Rightarrow> fs" where
  "fs_put p n fs = (p, n) # fs_remove p fs"

text \<open>\<open>fsp.rm(p, {recursive: true, force: true})\<close>: the node and everything below it.\<close>

definition fs_rm_rf :: "path \<Rightarrow> fs \<Rightarrow> fs" where
  "fs_rm_rf p fs = filter (\<lambda>e. \<not> prefix p (fst e)) fs"

text \<open>The names directly inside a folder.\<close>

definition children :: "fs \<Rightarrow> path \<Rightarrow> string list" where
  "children fs dir =
     remdups (map (\<lambda>e. last (fst e)) (filter (\<lambda>e. fst e \<noteq> [] \<and> butlast (fst e) = dir) fs))"

text \<open>
  A table is well formed when every entry lies in a directory of the table, as in any
  real file system; the root itself needs no entry.
\<close>

definition wf_fs :: "fs \<Rightarrow> bool" where
  "wf_fs fs =
     list_all (\<lambda>e. butlast (fst e) = [] \<or> fs_lookup fs (butlast (fst e)) = Some Dir) fs"

definition existsSync :: "fs \<Rightarrow> path \<Rightarrow> bool" where
  "existsSync fs p = (fs_lookup fs p \<noteq> None)"

definition readdir :: "fs \<Rightarrow> path \<Rightarrow> js_error + string list" where
  "readdir fs p =
     (case fs_lookup fs p of
        None \<Rightarrow> Inl ENOENT
      | Some Dir \<Rightarrow> Inr (children fs p)
      | Some (File c) \<Rightarrow> Inl ENOTDIR)"

text \<open>
  \<open>writeFile\<close> (also \<open>writeFileSync\<close> and the file \<open>page.pdf\<close> writes): the parent must be
  a directory and the target must not be one; an existing file is overwritten.
\<close>

definition writeFile :: "path \<Rightarrow> content \<Rightarrow> fs \<Rightarrow> js_error + fs" where
  "writeFile p c fs =
     (if p = [] then Inl EISDIR
      else case fs_lookup fs (butlast p) of
        None \<Rightarrow> Inl ENOENT
      | Some (File d) \<Rightarrow> Inl ENOTDIR
      | Some Dir \<Rightarrow>
          (case fs_lookup fs p of
             Some Dir \<Rightarrow> Inl EISDIR
           | _ \<Rightarrow> Inr (fs_put p (File c) fs)))"

definition unlinkSync :: "path \<Rightarrow> fs \<Rightarrow> js_error + fs" where
  "unlinkSync p fs =
     (case fs_lookup fs p of
        None \<Rightarrow> Inl ENOENT
      | Some Dir \<Rightarrow> Inl EISDIR
      | Some (File c) \<Rightarrow> Inr (fs_remove p fs))"

text \<open>
  \<open>renameSync\<close>: a file replaces whatever file is at the destination; a directory moves
  with its content, onto nothing or onto an empty directory.
\<close>

definition moveTree :: "path \<Rightarrow> path \<Rightarrow> fs \<Rightarrow> fs" where
  "moveTree src dst fs =
     map (\<lambda>e. if prefix src (fst e) then (dst @ drop (length src) (fst e), snd e) else e)
       (fs_rm_rf dst fs)"

definition renameSync :: "path \<Rightarrow> path \<Rightarrow> fs \<Rightarrow> js_error + fs" where
  "renameSync src dst fs =
     (case fs_lookup fs src of
        None \<Rightarrow> Inl ENOENT
      | Some (File c) \<Rightarrow>
          (case fs_lookup fs dst of
             Some Dir \<Rightarrow> Inl EISDIR
           | _ \<Rightarrow> Inr (fs_put dst (File c) (fs_remove src fs)))
      | Some Dir \<Rightarrow>
          (case fs_lookup fs dst of
             Some (File d) \<Rightarrow> Inl ENOTDIR
           | Some Dir \<Rightarrow> if children fs dst = [] then Inr (moveTree src dst fs) else Inl ENOTEMPTY
           | None \<Rightarrow> Inr (moveTree src dst fs)))"

text \<open>\<open>mkdirSync(p, {recursive: true})\<close>: every missing ancestor is created, outermost first.\<close>

fun mkdirs :: "path list \<Rightarrow> fs \<Rightarrow> js_error + fs" where
  "mkdirs [] fs = Inr fs"
| "mkdirs (q # qs) fs =
     (case fs_lookup fs q of
        None \<Rightarrow> mkdirs qs (fs_put q Dir fs)
      | Some Dir \<Rightarrow> mkdirs qs fs
      | Some (File c) \<Rightarrow> Inl ENOTDIR)"

definition mkdirSync_recursive :: "path \<Rightarrow> fs \<Rightarrow> js_error + fs" where
  "mkdirSync_recursive p fs = mkdirs (tl (prefixes p)) fs"

subsection \<open>Path strings and glob patterns\<close>

text \<open>
  A path string as the program passes it to \<open>glob.sync\<close> and gets it back: absolute
  (it starts with the separator) or relative. \<open>path.join(folderPath, file)\<close> concatenates
  the segments of both arguments and normalises the result; an absolute second argument
  gets no special treatment (unlike \<open>path.resolve\<close>), so both cases append.
\<close>

datatype jpath = Abs "string list" | Rel "string list"

fun path_join :: "path \<Rightarrow> jpath \<Rightarrow> path" where
  "path_join folder (Abs segs) = folder @ segs"
| "path_join folder (Rel segs) = folder @ segs"

text \<open>
  \<open>glob.sync(pattern, {cwd})\<close> belongs to the \<open>glob\<close> package, which is not part of the
  repository. Its documented behaviour is modelled for the patterns the program passes:
  \<^item> a pattern is matched segment by segment against the names in each folder; \<open>*\<close>
    matches any run of characters and \<open>?\<close> one character, every other character
    matches itself (brackets, braces and \<open>**\<close> are not modelled: none of them occurs in
    \<open>PDFs\<close>, \<open>*.json*\<close>, \<open>*.pdf\<close>, \<open>*.zip\<close> or a path built from an article number such
    as \<open>KB0010279\<close>);
  \<^item> a name that starts with a dot is matched only by a segment that starts with a dot;
  \<^item> a relative pattern is resolved against \<open>cwd\<close> and its matches are reported
    relative to \<open>cwd\<close>; an absolute pattern ignores \<open>cwd\<close> and its matches are reported
    as absolute paths.
\<close>

fun wild_match :: "string \<Rightarrow> string \<Rightarrow> bool" where
  "wild_match [] [] = True"
| "wild_match [] (c # cs) = False"
| "wild_match (p # ps) [] = (p = CHR ''*'' \<and> wild_match ps [])"
| "wild_match (p # ps) (c # cs) =
     (if p = CHR ''*'' then wild_match ps (c # cs) \<or> wild_match (p # ps) cs
      else (p = CHR ''?'' \<or> p = c) \<and> wild_match ps cs)"

definition seg_match :: "string \<Rightarrow> string \<Rightarrow> bool" where
  "seg_match pat name =
     (if take 1 name = ''.'' \<and> take 1 pat \<noteq> ''.'' then False else wild_match pat name)"

fun glob_walk :: "fs \<Rightarrow> path \<Rightarrow> string list \<Rightarrow> string list list" where
  "glob_walk fs dir [] = [[]]"
| "glob_walk fs dir (seg # segs) =
     concat (map (\<lambda>n. map ((#) n) (glob_walk fs (dir @ [n]) segs))
                 (filter (seg_match seg) (children fs dir)))"

fun glob_sync :: "fs \<Rightarrow> path \<Rightarrow> jpath \<Rightarrow> jpath list" where
  "glob_sync fs cwd (Abs segs) = map Abs (glob_walk fs [] segs)"
| "glob_sync fs cwd (Rel segs) = map Rel (glob_walk fs cwd segs)"

section \<open>Clearing a folder (fs_tools, removeFolderContents)\<close>

text \<open>
  The second parameter \<open>patterns\<close> is untyped in the source. The callers pass an array of
  strings, \<open>null\<close>, or (in \<open>fetchArticles\<close>) the monitoring function itself; of a function
  only the number of parameters it declares is observable, through \<open>patterns.length\<close>.
\<close>

datatype patterns_arg = PatNull | PatArray "jpath list" | PatFunction nat

text \<open>\<open>patterns.filter(Boolean)\<close> drops the empty string.\<close>

fun truthy_pattern :: "jpath \<Rightarrow> bool" where
  "truthy_pattern (Rel []) = False"
| "truthy_pattern p = True"

text \<open>\<open>filesToDelete\<close> is a JavaScript \<open>Set\<close>: insertion order, no duplicates.\<close>

definition set_add :: "'a \<Rightarrow> 'a list \<Rightarrow> 'a list" where
  "set_add x s = (if x \<in> set s then s else s @ [x])"

definition addAll :: "'a list \<Rightarrow> 'a list \<Rightarrow> 'a list" where
  "addAll xs s = foldl (\<lambda>acc x. set_add x acc) s xs"

text \<open>
  The set of names to delete. With a function in the place of \<open>patterns\<close> the test
  \<open>patterns && patterns.length > 0\<close> holds as soon as the function declares a parameter,
  and \<open>patterns.filter\<close> then raises a \<open>TypeError\<close>.
\<close>

definition filesToDelete :: "fs \<Rightarrow> path \<Rightarrow> patterns_arg \<Rightarrow> string list \<Rightarrow> js_error + jpath list" where
  "filesToDelete fs folderPath patterns files =
     (case patterns of
        PatNull \<Rightarrow> Inr (addAll (map (\<lambda>f. Rel [f]) files) [])
      | PatArray ps \<Rightarrow>
          if length ps > 0
          then Inr (foldl (\<lambda>acc pattern. addAll (glob_sync fs folderPath pattern) acc) []
                      (filter truthy_pattern ps))
          else Inr (addAll (map (\<lambda>f. Rel [f]) files) [])
      | PatFunction n \<Rightarrow>
          if n > 0 then Inl TypeError
          else Inr (addAll (map (\<lambda>f. Rel [f]) files) []))"

text \<open>
  The deletion loop. \<open>fsp.lstat\<close> raises when \<open>path.join(folderPath, file)\<close> does not
  exist; the exception leaves the loop and is caught by the function's own \<open>catch\<close>, so
  the files deleted so far stay deleted and the rest is not visited.
\<close>

fun deleteEach :: "path \<Rightarrow> jpath list \<Rightarrow> fs \<Rightarrow> fs" where
  "deleteEach folderPath [] fs = fs"
| "deleteEach folderPath (file # rest) fs =
     (case fs_lookup fs (path_join folderPath file) of
        None \<Rightarrow> fs
      | Some Dir \<Rightarrow> deleteEach folderPath rest (fs_rm_rf (path_join folderPath file) fs)
      | Some (File c) \<Rightarrow> deleteEach folderPath rest (fs_remove (path_join folderPath file) fs))"

definition removeFolderContents :: "path \<Rightarrow> patterns_arg \<Rightarrow> fs \<Rightarrow> fs" where
  "removeFolderContents folderPath patterns fs =
     (case readdir fs folderPath of
        Inl e \<Rightarrow> fs
      | Inr files \<Rightarrow>
          (case filesToDelete fs folderPath patterns files of
             Inl e \<Rightarrow> fs
           | Inr dels \<Rightarrow> deleteEach folderPath dels fs))"

text \<open>
  \<open>removeFolderContents\<close> is an \<open>async\<close> function. A caller that awaits it sees the
  function above. A caller that does not await it goes on while the function is
  suspended at one of its \<open>await\<close>s, so the function advances in steps: the first step
  reads the folder and fixes the set of names to delete, every later step looks at one
  name and deletes it (\<open>lstat\<close> and the deletion that follows it are taken as one step:
  nothing the program does in between changes a file into a folder or back). A failed
  step ends the function, as its \<open>catch\<close> does.
\<close>

datatype resetState = Pending | Deleting "jpath list" | Finished

definition resetStep :: "path \<Rightarrow> patterns_arg \<Rightarrow> resetState \<Rightarrow> fs \<Rightarrow> resetState \<times> fs" where
  "resetStep folderPath patterns st fs =
     (case st of
        Pending \<Rightarrow>
          (case readdir fs folderPath of
             Inl e \<Rightarrow> (Finished, fs)
           | Inr files \<Rightarrow>
               (case filesToDelete fs folderPath patterns files of
                  Inl e \<Rightarrow> (Finished, fs)
                | Inr dels \<Rightarrow> (Deleting dels, fs)))
      | Deleting [] \<Rightarrow> (Finished, fs)
      | Deleting (file # rest) \<Rightarrow>
          (case fs_lookup fs (path_join folderPath file) of
             None \<Rightarrow> (Finished, fs)
           | Some Dir \<Rightarrow> (Deleting rest, fs_rm_rf (path_join folderPath file) fs)
           | Some (File c) \<Rightarrow> (Deleting rest, fs_remove (path_join folderPath file) fs))
      | Finished \<Rightarrow> (Finished, fs))"

text \<open>The rest of the function, run without interruption from where it stands.\<close>

definition finishReset :: "path \<Rightarrow> patterns_arg \<Rightarrow> resetState \<Rightarrow> fs \<Rightarrow> fs" where
  "finishReset folderPath patterns st fs =
     (case st of
        Pending \<Rightarrow> removeFolderContents folderPath patterns fs
      | Deleting dels \<Rightarrow> deleteEach folderPath dels fs
      | Finished \<Rightarrow> fs)"
section \<open>Session lock (core/session)\<close>

definition LOCK_FILE_NAME :: string where
  "LOCK_FILE_NAME = ''operation_in_progress.lock''"

definition canOpenSession :: "path \<Rightarrow> fs \<Rightarrow> bool" where
  "canOpenSession targetFolder fs = (\<not> existsSync fs (targetFolder @ [LOCK_FILE_NAME]))"

text \<open>The lock file's content is a fresh UUID, a parameter here.\<close>

definition openSession :: "path \<Rightarrow> string \<Rightarrow> fs \<Rightarrow> js_error + fs" where
  "openSession targetFolder uuid fs =
     (if existsSync fs (targetFolder @ [LOCK_FILE_NAME]) then Inl SessionLocked
      else writeFile (targetFolder @ [LOCK_FILE_NAME]) (Other uuid) fs)"

definition closeSession :: "path \<Rightarrow> fs \<Rightarrow> js_error + fs" where
  "closeSession targetFolder fs =
     (if \<not> existsSync fs (targetFolder @ [LOCK_FILE_NAME]) then Inr fs
      else unlinkSync (targetFolder @ [LOCK_FILE_NAME]) fs)"

section \<open>The remote instance (sn_tools)\<close>

text \<open>
  What lies outside the program during one run. \<open>listing\<close> is the array
  \<open>getArticlesList\<close> builds from the Table API response (\<open>None\<close> when the request or the
  processing of the response raises); \<open>browser_ok\<close> says whether the headless browser
  starts and logs in; \<open>render_ok\<close> says, per article number, whether navigating to the
  article and printing it succeeds. \<open>turns\<close> is the order in which the event loop
  resumes the two activities that are pending in \<open>fetchArticles\<close> once it has called
  \<open>removeFolderContents\<close> without awaiting it: a \<open>ResetTurn\<close> lets the reset take one
  step, a \<open>RenderTurn\<close> lets the loop render its next article. When the list is used up
  the reset runs to its end and the loop renders what is left, so the empty list is
  the run in which the folder is cleared before the first article is printed.
\<close>

datatype turn = ResetTurn | RenderTurn

record remote =
  listing :: "article list option"
  browser_ok :: bool
  render_ok :: "string \<Rightarrow> bool"
  turns :: "turn list"

text \<open>
  The monitoring callback is \<open>None\<close> for \<open>null\<close> and otherwise the number of
  parameters the function declares; \<open>monitoringFn || function () {}\<close> declares none.
\<close>

definition declared_params :: "nat option \<Rightarrow> nat" where
  "declared_params monitoringFn = (case monitoringFn of None \<Rightarrow> 0 | Some n \<Rightarrow> n)"

text \<open>
  \<open>getArticlesList\<close>: the list is written to \<open>targetFile\<close> only after the request has
  succeeded; a failed write is caught and the list is returned all the same; a failed
  request returns \<open>undefined\<close> and writes nothing.
\<close>

definition getArticlesList :: "remote \<Rightarrow> path \<Rightarrow> fs \<Rightarrow> article list option \<times> fs" where
  "getArticlesList r targetFile fs =
     (case listing r of
        None \<Rightarrow> (None, fs)
      | Some articles \<Rightarrow>
          (case writeFile targetFile (Snapshot articles) fs of
             Inl e \<Rightarrow> (Some articles, fs)
           | Inr fs' \<Rightarrow> (Some articles, fs')))"

text \<open>The loop of \<open>fetchArticles\<close>: a failure is caught per article and the loop goes on.\<close>

fun renderEach :: "remote \<Rightarrow> path \<Rightarrow> string list \<Rightarrow> fs \<Rightarrow> fs" where
  "renderEach r targetDir [] fs = fs"
| "renderEach r targetDir (articleNumber # rest) fs =
     (if render_ok r articleNumber
      then (case writeFile (targetDir @ [articleNumber @ ''.pdf'']) (Pdf articleNumber) fs of
              Inl e \<Rightarrow> renderEach r targetDir rest fs
            | Inr fs' \<Rightarrow> renderEach r targetDir rest fs')
      else renderEach r targetDir rest fs)"

text \<open>
  The loop of \<open>fetchArticles\<close> and the reset it did not await, taking turns. The state
  returned is the one reached when both have finished.
\<close>

fun interleave ::
  "remote \<Rightarrow> path \<Rightarrow> patterns_arg \<Rightarrow> turn list \<Rightarrow> resetState \<Rightarrow> string list \<Rightarrow> fs \<Rightarrow> fs" where
  "interleave r targetDir patterns [] st articleNumbers fs =
     renderEach r targetDir articleNumbers (finishReset targetDir patterns st fs)"
| "interleave r targetDir patterns (ResetTurn # ts) st articleNumbers fs =
     (case resetStep targetDir patterns st fs of
        (st', fs') \<Rightarrow> interleave r targetDir patterns ts st' articleNumbers fs')"
| "interleave r targetDir patterns (RenderTurn # ts) st [] fs =
     interleave r targetDir patterns ts st [] fs"
| "interleave r targetDir patterns (RenderTurn # ts) st (articleNumber # rest) fs =
     interleave r targetDir patterns ts st rest (renderEach r targetDir [articleNumber] fs)"

text \<open>
  \<open>fetchArticles\<close>: launching the browser and logging in happen outside any \<open>try\<close>, so
  their failure leaves the function before anything is touched. With \<open>resetTarget\<close> the
  call is \<open>removeFolderContents(targetDir, $m)\<close>: the monitoring function stands in the
  place of \<open>patterns\<close>, and the call is not awaited.
\<close>

definition fetchArticles ::
  "remote \<Rightarrow> string list \<Rightarrow> path \<Rightarrow> bool \<Rightarrow> nat option \<Rightarrow> fs \<Rightarrow> js_error + fs" where
  "fetchArticles r articleNumbers targetDir resetTarget monitoringFn fs =
     (if \<not> browser_ok r then Inl BrowserFailed
      else Inr (if resetTarget
                then interleave r targetDir (PatFunction (declared_params monitoringFn))
                       (turns r) Pending articleNumbers fs
                else renderEach r targetDir articleNumbers fs))"

text \<open>\<open>JSON.parse(await fs.readFile(file))\<close> for a list of articles.\<close>

definition readList :: "fs \<Rightarrow> path \<Rightarrow> js_error + article list" where
  "readList fs p =
     (case fs_lookup fs p of
        None \<Rightarrow> Inl ENOENT
      | Some Dir \<Rightarrow> Inl EISDIR
      | Some (File (Snapshot l)) \<Rightarrow> Inr l
      | Some (File c) \<Rightarrow> Inl SyntaxError)"

text \<open>
  \<open>getKBChanges\<close>: every exception (a list that cannot be read, a report that cannot be
  written) is caught and the function returns \<open>null\<close>. The time stamp \<open>now\<close> is a
  parameter.
\<close>

definition getKBChanges :: "path \<Rightarrow> path \<Rightarrow> path \<Rightarrow> string \<Rightarrow> fs \<Rightarrow> report option \<times> fs" where
  "getKBChanges currListFile olderListFile targetChangesFile now fs =
     (case readList fs currListFile of
        Inl e \<Rightarrow> (None, fs)
      | Inr currList \<Rightarrow>
          (case readList fs olderListFile of
             Inl e \<Rightarrow> (None, fs)
           | Inr olderList \<Rightarrow>
               (case writeFile targetChangesFile
                       (Report \<lparr>last_updated_on = now, changes = kbChanges currList olderList\<rparr>) fs of
                  Inl e \<Rightarrow> (None, fs)
                | Inr fs' \<Rightarrow>
                    (Some \<lparr>last_updated_on = now, changes = kbChanges currList olderList\<rparr>, fs'))))"

section \<open>The operations (business/operation)\<close>

definition resetWorkspace :: "path \<Rightarrow> fs \<Rightarrow> fs" where
  "resetWorkspace folderPath fs =
     removeFolderContents folderPath
       (PatArray [Rel [''PDFs''], Rel [''*.json*''], Rel [''*.pdf''], Rel [''*.zip'']]) fs"

text \<open>
  Not a function of the source: the names in \<open>folderPath\<close> that the four patterns of
  \<open>resetWorkspace\<close> select, in the order in which the set of files to delete receives
  them.
\<close>

definition resetNames :: "fs \<Rightarrow> path \<Rightarrow> string list" where
  "resetNames fs folderPath =
     addAll (filter (seg_match ''*.zip'') (children fs folderPath))
       (addAll (filter (seg_match ''*.pdf'') (children fs folderPath))
          (addAll (filter (seg_match ''*.json*'') (children fs folderPath))
             (addAll (filter (seg_match ''PDFs'') (children fs folderPath)) [])))"

definition doListingOnly :: "path \<Rightarrow> string \<Rightarrow> remote \<Rightarrow> fs \<Rightarrow> article list option \<times> fs" where
  "doListingOnly folderPath targetFileName r fs =
     getArticlesList r (folderPath @ [targetFileName @ ''.json'']) (resetWorkspace folderPath fs)"

text \<open>
  \<open>doListingWithChanges\<close>: without a list file it returns \<open>null\<close> at once. Otherwise the
  list file is renamed to \<open>.old\<close> first, then the new list is requested, then the two
  files are compared.
\<close>

definition doListingWithChanges ::
  "path \<Rightarrow> string \<Rightarrow> string \<Rightarrow> remote \<Rightarrow> string \<Rightarrow> fs \<Rightarrow> report option \<times> fs" where
  "doListingWithChanges folderPath listFileName changesFileName r now fs =
     (if \<not> existsSync fs (folderPath @ [listFileName @ ''.json'']) then (None, fs)
      else case renameSync (folderPath @ [listFileName @ ''.json''])
                  (folderPath @ [listFileName @ ''.json'' @ ''.old'']) fs of
             Inl e \<Rightarrow> (None, fs)
           | Inr fs1 \<Rightarrow>
               getKBChanges (folderPath @ [listFileName @ ''.json''])
                 (folderPath @ [listFileName @ ''.json'' @ ''.old''])
                 (folderPath @ [changesFileName @ ''.json'']) now
                 (snd (getArticlesList r (folderPath @ [listFileName @ ''.json'']) fs1)))"

text \<open>
  \<open>doListingWithFiles\<close>: the list, then the \<open>PDFs\<close> folder, then one rendering per listed
  article. Whatever is raised on the way (a failed \<open>mkdirSync\<close>, \<open>articlesList\<close> being
  \<open>undefined\<close> after a failed request, a browser that does not start) is caught at the
  end and the function returns.
\<close>

definition doListingWithFiles :: "path \<Rightarrow> string \<Rightarrow> remote \<Rightarrow> nat option \<Rightarrow> fs \<Rightarrow> fs" where
  "doListingWithFiles folderPath targetFileName r monitoringFn fs =
     (case doListingOnly folderPath targetFileName r fs of
        (articlesList, fs1) \<Rightarrow>
          (case (if \<not> existsSync fs1 (folderPath @ [''PDFs''])
                 then mkdirSync_recursive (folderPath @ [''PDFs'']) fs1 else Inr fs1) of
             Inl e \<Rightarrow> fs1
           | Inr fs2 \<Rightarrow>
               (case articlesList of
                  None \<Rightarrow> fs2
                | Some l \<Rightarrow>
                    (case fetchArticles r (map number l) (folderPath @ [''PDFs'']) False
                            monitoringFn fs2 of
                       Inl e \<Rightarrow> fs2
                     | Inr fs3 \<Rightarrow> fs3))))"

text \<open>
  The two halves of \<open>doChangesWithFiles\<close> after the report is there. The removal
  patterns are \<open>path.join(pdfHome, articleNumber + ".pdf")\<close> with
  \<open>pdfHome = path.join(folderPath, "PDFs")\<close>, that is, paths that already start with
  \<open>folderPath\<close>, and they are handed to \<open>removeFolderContents(folderPath, removals)\<close>.
\<close>

definition removalStep :: "path \<Rightarrow> report \<Rightarrow> bool \<Rightarrow> fs \<Rightarrow> fs" where
  "removalStep folderPath changesReport newerOnly fs =
     (if \<not> newerOnly
      then (if length (removed (changes changesReport) @ updated (changes changesReport)) > 0
            then removeFolderContents folderPath
                   (PatArray (map (\<lambda>articleNumber.
                                     Abs (folderPath @ [''PDFs''] @ [articleNumber @ ''.pdf'']))
                                (removed (changes changesReport) @ updated (changes changesReport))))
                   fs
            else fs)
      else fs)"

definition downloadStep :: "path \<Rightarrow> report \<Rightarrow> bool \<Rightarrow> remote \<Rightarrow> nat option \<Rightarrow> fs \<Rightarrow> fs" where
  "downloadStep folderPath changesReport newerOnly r monitoringFn fs =
     (if length (updated (changes changesReport) @ added (changes changesReport)) > 0
      then (case fetchArticles r (updated (changes changesReport) @ added (changes changesReport))
                   (folderPath @ [''PDFs'']) newerOnly monitoringFn fs of
              Inl e \<Rightarrow> fs
            | Inr fs' \<Rightarrow> fs')
      else fs)"

definition doChangesWithFiles ::
  "path \<Rightarrow> string \<Rightarrow> string \<Rightarrow> remote \<Rightarrow> nat option \<Rightarrow> bool \<Rightarrow> string \<Rightarrow> fs \<Rightarrow> fs" where
  "doChangesWithFiles folderPath listFileName changesFileName r monitoringFn newerOnly now fs =
     (if \<not> existsSync fs (folderPath @ [listFileName @ ''.json''])
      then doListingWithFiles folderPath listFileName r monitoringFn fs
      else case doListingWithChanges folderPath listFileName changesFileName r now fs of
             (None, fs1) \<Rightarrow> fs1
           | (Some changesReport, fs1) \<Rightarrow>
               downloadStep folderPath changesReport newerOnly r monitoringFn
                 (removalStep folderPath changesReport newerOnly fs1))"

text \<open>The file names the output folder is expected to hold for a list of numbers.\<close>

definition pdfNames :: "string list \<Rightarrow> string set" where
  "pdfNames numbers = (\<lambda>n. n @ ''.pdf'') ` set numbers"



section \<open>Effective configuration (core/config_tools and business/main)\<close>

text \<open>
  A JavaScript string value is the sequence of its UTF-16 code units. Property names
  are compared only for equality and stay plain names; \<open>str\<close> gives the code units of a
  literal of the source (not a function of the source).
\<close>

type_synonym jsstring = "nat list"

definition str :: "string \<Rightarrow> jsstring" where
  "str s = map of_char s"

text \<open>
  JSON values as far as the configuration uses them; an object is a partial map from
  property names, and a missing property reads as \<open>undefined\<close>.
\<close>

datatype jsval = JNull | JBool bool | JNum int | JStr jsstring

type_synonym jsobj = "string \<rightharpoonup> jsval"

fun truthy :: "jsval option \<Rightarrow> bool" where
  "truthy None = False"
| "truthy (Some JNull) = False"
| "truthy (Some (JBool b)) = b"
| "truthy (Some (JNum n)) = (n \<noteq> 0)"
| "truthy (Some (JStr s)) = (s \<noteq> [])"

text \<open>\<open>mergeData\<close> declares three parameters and spreads them, later ones winning.\<close>

definition mergeData :: "jsobj \<Rightarrow> jsobj \<Rightarrow> jsobj \<Rightarrow> jsobj" where
  "mergeData implicit explicit given = (implicit ++ explicit) ++ given"

text \<open>
  A JavaScript call binds the actual arguments to the declared parameters by position:
  a surplus argument is bound to nothing, a missing one is \<open>undefined\<close> (whose spread
  adds no property).
\<close>

definition actual :: "jsobj list \<Rightarrow> nat \<Rightarrow> jsobj" where
  "actual arguments i = (if i < length arguments then arguments ! i else Map.empty)"

definition call_mergeData :: "jsobj list \<Rightarrow> jsobj" where
  "call_mergeData arguments =
     mergeData (actual arguments 0) (actual arguments 1) (actual arguments 2)"

text \<open>
  The configuration file after \<open>JSON.parse\<close>: its profiles, or \<open>None\<close> when the file
  cannot be read or parsed or has no \<open>profiles\<close> array. \<open>settings\<close> is
  \<open>profile.settings || {}\<close>. A profile is looked up by \<open>p.name === profileName\<close> with a
  string \<open>profileName\<close>, so only profiles whose name is a string can ever be found and
  the table lists those.
\<close>

record profile =
  profile_name :: jsstring
  settings :: jsobj

text \<open>
  \<open>String.prototype.trim\<close> strips the code units ECMAScript calls white space or line
  terminators: U+0009 to U+000D, U+0020, U+00A0, U+1680, U+2000 to U+200A, U+2028,
  U+2029, U+202F, U+205F, U+3000 and U+FEFF.
\<close>

definition js_whitespace :: "nat \<Rightarrow> bool" where
  "js_whitespace c =
     ((0x09 \<le> c \<and> c \<le> 0x0D) \<or> c = 0x20 \<or> c = 0xA0 \<or> c = 0x1680
      \<or> (0x2000 \<le> c \<and> c \<le> 0x200A) \<or> c = 0x2028 \<or> c = 0x2029 \<or> c = 0x202F
      \<or> c = 0x205F \<or> c = 0x3000 \<or> c = 0xFEFF)"

definition trim :: "jsstring \<Rightarrow> jsstring" where
  "trim s = rev (dropWhile js_whitespace (rev (dropWhile js_whitespace s)))"

definition validStorageModes :: "jsstring list" where
  "validStorageModes =
     [str ''files'', str ''archived_files'', str ''single_file'', str ''single_archived_file'']"

definition validOperationModes :: "jsstring list" where
  "validOperationModes =
     [str ''list'', str ''list_changes'', str ''list_files'', str ''list_changes_files'',
      str ''list_changes_files_delta'']"

fun includes_value :: "jsstring list \<Rightarrow> jsval \<Rightarrow> bool" where
  "includes_value xs (JStr s) = (s \<in> set xs)"
| "includes_value xs v = False"

fun blank_string :: "jsval \<Rightarrow> bool" where
  "blank_string (JStr s) = (trim s = [])"
| "blank_string v = False"

text \<open>One round of the loop over \<open>Object.entries(settings)\<close>.\<close>

definition filterSetting :: "string \<Rightarrow> jsval \<Rightarrow> jsval" where
  "filterSetting key v =
     (if blank_string v then JNull
      else if key = ''storage_mode'' \<and> \<not> includes_value validStorageModes v then JNull
      else if key = ''operation_mode'' \<and> \<not> includes_value validOperationModes v then JNull
      else v)"

definition getConfigData :: "profile list option \<Rightarrow> jsstring \<Rightarrow> jsobj option" where
  "getConfigData configFile profileName =
     (case configFile of
        None \<Rightarrow> None
      | Some profiles \<Rightarrow>
          (case find (\<lambda>p. profile_name p = profileName) profiles of
             None \<Rightarrow> None
           | Some p \<Rightarrow> Some (\<lambda>key. map_option (filterSetting key) (settings p key))))"

text \<open>\<open>getConfigData(...) || {}\<close>.\<close>

definition orEmpty :: "jsobj option \<Rightarrow> jsobj" where
  "orEmpty v = (case v of None \<Rightarrow> Map.empty | Some obj \<Rightarrow> obj)"

text \<open>
  An entry of \<open>appArgs\<close>: \<open>argName\<close> is the first alternative of the first group of the
  entry's regular expression, as \<open>mainExec\<close> extracts it for the mandatory check.
\<close>

record argSpec =
  argName :: string
  mandatory :: bool

record mainInput =
  appArgDefaults :: jsobj
  appArgs :: "argSpec list"

text \<open>
  \<open>args.config_profile ? getConfigData(configFilePath, args.config_profile, $m) || {} : {}\<close>.
  A truthy value that is not a string names no profile.
\<close>

definition profileData :: "profile list option \<Rightarrow> jsobj \<Rightarrow> jsobj" where
  "profileData configFile args =
     (if truthy (args ''config_profile'')
      then (case args ''config_profile'' of
              Some (JStr profileName) \<Rightarrow> orEmpty (getConfigData configFile profileName)
            | _ \<Rightarrow> Map.empty)
      else Map.empty)"

text \<open>
  \<open>mainExec\<close> calls \<open>mergeData(appArgDefaults, defaultProfileData, profileData, args)\<close>:
  four actual arguments.
\<close>

definition finalInputData :: "mainInput \<Rightarrow> profile list option \<Rightarrow> jsobj \<Rightarrow> jsobj" where
  "finalInputData inp configFile args =
     call_mergeData [appArgDefaults inp, orEmpty (getConfigData configFile (str ''default'')),
                     profileData configFile args, args]"

text \<open>
  \<open>mainExec\<close> from the parsed arguments (\<open>None\<close> when \<open>getArguments\<close> met an unknown
  argument) to the point where the output directory is looked up on disk: an exit
  status, or the configuration every later step reads (\<open>output_dir\<close>, \<open>operation_mode\<close>,
  \<open>sn_instance_name\<close>, \<open>sn_user_name\<close>, \<open>sn_pass\<close>, \<open>sn_query\<close>, \<open>newer_only\<close>,
  \<open>storage_mode\<close>).
\<close>

datatype mainStage = Exit nat | Proceed jsobj

definition mainExec_config :: "mainInput \<Rightarrow> profile list option \<Rightarrow> jsobj option \<Rightarrow> mainStage" where
  "mainExec_config inp configFile parsed =
     (case parsed of
        None \<Rightarrow> Exit 2
      | Some args \<Rightarrow>
          if truthy (args ''help'') then Exit 1
          else if truthy (args ''init_config'') then Exit 1
          else if list_ex (\<lambda>a. mandatory a \<and> \<not> truthy (finalInputData inp configFile args (argName a)))
                    (appArgs inp)
               then Exit 2
          else if \<not> truthy (finalInputData inp configFile args ''output_dir'') then Exit 2
          else Proceed (finalInputData inp configFile args))"

text \<open>
  The \<open>switch\<close> on \<open>finalInputData.operation_mode\<close>: the operation that is called and
  the values it receives from the configuration (output directory, instance name, user
  name, password, query and, for \<open>doChangesWithFiles\<close>, \<open>newer_only\<close>); \<open>None\<close> is the
  \<open>default\<close> branch.
\<close>

datatype operationName = DoListingOnly | DoListingWithChanges | DoListingWithFiles | DoChangesWithFiles

definition selectOperation :: "jsobj \<Rightarrow> (operationName \<times> jsval option list) option" where
  "selectOperation final =
     (case final ''operation_mode'' of
        Some (JStr m) \<Rightarrow>
          if m = str ''list''
          then Some (DoListingOnly,
                 [final ''output_dir'', final ''sn_instance_name'', final ''sn_user_name'',
                  final ''sn_pass'', final ''sn_query''])
          else if m = str ''list_changes''
          then Some (DoListingWithChanges,
                 [final ''output_dir'', final ''sn_instance_name'', final ''sn_user_name'',
                  final ''sn_pass'', final ''sn_query''])
          else if m = str ''list_files''
          then Some (DoListingWithFiles,
                 [final ''output_dir'', final ''sn_instance_name'', final ''sn_user_name'',
                  final ''sn_pass'', final ''sn_query''])
          else if m = str ''list_changes_files''
          then Some (DoChangesWithFiles,
                 [final ''output_dir'', final ''sn_instance_name'', final ''sn_user_name'',
                  final ''sn_pass'', final ''sn_query'', final ''newer_only''])
          else None
      | _ \<Rightarrow> None)"

text \<open>
  \<open>mainExec\<close> up to the call of the operation. Between the validation and the \<open>switch\<close>
  the output directory must exist, hold no lock and take the \<open>PDFs\<close> folder;
  \<open>folderReady\<close> says whether that is so for the directory the configuration names.
  The result is the exit status with which \<open>mainExec\<close> stops before any operation, or
  the operation it calls.
\<close>

definition mainExec_dispatch ::
  "mainInput \<Rightarrow> profile list option \<Rightarrow> jsobj option \<Rightarrow> (jsval option \<Rightarrow> bool)
     \<Rightarrow> nat + operationName \<times> jsval option list" where
  "mainExec_dispatch inp configFile parsed folderReady =
     (case mainExec_config inp configFile parsed of
        Exit status \<Rightarrow> Inl status
      | Proceed final \<Rightarrow>
          if \<not> folderReady (final ''output_dir'') then Inl 2
          else (case selectOperation final of
                  None \<Rightarrow> Inl 2
                | Some call \<Rightarrow> Inr call))"
section \<open>Example data\<close>

text \<open>
  The scenario of the specification: the earlier list holds K1 and K2 at version v1,
  the new list holds K1 at v2 and K3 at v1.
\<close>

definition art :: "string \<Rightarrow> string \<Rightarrow> string \<Rightarrow> article" where
  "art i n v = \<lparr>sys_id = i, number = n, version_display_value = v\<rparr>"

definition exOld :: "article list" where
  "exOld = [art ''K1'' ''KB0001'' ''v1'', art ''K2'' ''KB0002'' ''v1'']"

definition exNew :: "article list" where
  "exNew = [art ''K1'' ''KB0001'' ''v2'', art ''K3'' ''KB0003'' ''v1'']"

text \<open>
  A new version published under a new \<open>sys_id\<close> that keeps the article number: two
  identities, one number.
\<close>

definition exReissuedOld :: "article list" where
  "exReissuedOld = [art ''K1'' ''KB0001'' ''v1'']"

definition exReissuedNew :: "article list" where
  "exReissuedNew = [art ''K9'' ''KB0001'' ''v2'']"

text \<open>A list that holds two records with one \<open>sys_id\<close>.\<close>

definition exDupNew :: "article list" where
  "exDupNew = [art ''K1'' ''KB0001'' ''v2'', art ''K3'' ''KB0003'' ''v1'', art ''K1'' ''KB0001'' ''v1'']"

text \<open>
  A working folder \<open>/data/out\<close> after an earlier run on \<open>exOld\<close>: the list file and one
  PDF per listed article.
\<close>

definition exFolder :: path where
  "exFolder = [''data'', ''out'']"

definition exFs :: fs where
  "exFs = [([''data''], Dir), ([''data'', ''out''], Dir), ([''data'', ''out'', ''PDFs''], Dir),
           ([''data'', ''out'', ''PDFs'', ''KB0001.pdf''], File (Pdf ''KB0001'')),
           ([''data'', ''out'', ''PDFs'', ''KB0002.pdf''], File (Pdf ''KB0002'')),
           ([''data'', ''out'', ''file_list.json''], File (Snapshot exOld))]"

text \<open>The same folder before any run: only the \<open>PDFs\<close> folder that \<open>mainExec\<close> sets up.\<close>

definition exFsFresh :: fs where
  "exFsFresh = [([''data''], Dir), ([''data'', ''out''], Dir), ([''data'', ''out'', ''PDFs''], Dir)]"

text \<open>A folder in which a directory sits at the path of the lock file.\<close>

definition exFsLockDir :: fs where
  "exFsLockDir = [([''data''], Dir), ([''data'', ''out''], Dir),
                  ([''data'', ''out'', ''operation_in_progress.lock''], Dir)]"

text \<open>
  Remote instances: one that lists \<open>exNew\<close>, one that still lists \<open>exOld\<close>, one whose
  listing request fails. Every rendering succeeds, and a folder reset that is not
  awaited finishes before the first article is printed.
\<close>

definition exRemote :: remote where
  "exRemote = \<lparr>listing = Some exNew, browser_ok = True, render_ok = (\<lambda>n. True), turns = []\<rparr>"


definition exRemoteDown :: remote where
  "exRemoteDown = \<lparr>listing = None, browser_ok = True, render_ok = (\<lambda>n. True), turns = []\<rparr>"

text \<open>
  The instance of \<open>exRemote\<close> in a run where the first article is printed before
  the reset has looked at the folder.
\<close>

definition exRemoteRace :: remote where
  "exRemoteRace = \<lparr>listing = Some exNew, browser_ok = True, render_ok = (\<lambda>n. True),
                    turns = [RenderTurn]\<rparr>"

text \<open>
  The input \<open>index.js\<close> hands to \<open>mainExec\<close> (defaults and the mandatory flags of
  \<open>appArgs\<close>); a command line that gives every mandatory argument and an operation
  mode; the same command line with \<open>--config_profile=nightly\<close>; and a configuration
  file whose \<open>default\<close> profile gives the mandatory arguments too, with another output
  directory, and whose \<open>nightly\<close> profile sets another instance and operation mode.
\<close>

definition exInput :: mainInput where
  "exInput = \<lparr>appArgDefaults = [''storage_mode'' \<mapsto> JStr (str ''files''),
                                  ''operation_mode'' \<mapsto> JStr (str ''list_files'')],
               appArgs = [\<lparr>argName = ''output_dir'', mandatory = True\<rparr>,
                          \<lparr>argName = ''sn_instance_name'', mandatory = True\<rparr>,
                          \<lparr>argName = ''sn_user_name'', mandatory = True\<rparr>,
                          \<lparr>argName = ''sn_pass'', mandatory = True\<rparr>,
                          \<lparr>argName = ''help'', mandatory = False\<rparr>,
                          \<lparr>argName = ''init_config'', mandatory = False\<rparr>,
                          \<lparr>argName = ''config_profile'', mandatory = False\<rparr>,
                          \<lparr>argName = ''sn_query'', mandatory = False\<rparr>,
                          \<lparr>argName = ''storage_mode'', mandatory = False\<rparr>,
                          \<lparr>argName = ''operation_mode'', mandatory = False\<rparr>]\<rparr>"

definition exArgs :: jsobj where
  "exArgs = [''output_dir'' \<mapsto> JStr (str ''/data/out''),
             ''sn_instance_name'' \<mapsto> JStr (str ''acme''),
             ''sn_user_name'' \<mapsto> JStr (str ''john.doe''),
             ''sn_pass'' \<mapsto> JStr (str ''letmein1234''),
             ''operation_mode'' \<mapsto> JStr (str ''list_changes_files'')]"

definition exArgsNightly :: jsobj where
  "exArgsNightly = exArgs(''config_profile'' \<mapsto> JStr (str ''nightly''))"

definition exConfigFile :: "profile list option" where
  "exConfigFile = Some [\<lparr>profile_name = str ''default'',
                         settings = [''output_dir'' \<mapsto> JStr (str ''/srv/kb''),
                                     ''sn_instance_name'' \<mapsto> JStr (str ''corp''),
                                     ''sn_user_name'' \<mapsto> JStr (str ''svc''),
                                     ''sn_pass'' \<mapsto> JStr (str ''secret'')]\<rparr>,
                        \<lparr>profile_name = str ''nightly'',
                         settings = [''sn_instance_name'' \<mapsto> JStr (str ''corp2''),
                                     ''operation_mode'' \<mapsto> JStr (str ''list_changes''),
                                     ''storage_mode'' \<mapsto> JStr [0x20, 0xA0]]\<rparr>]"
chapter \<open>Properties\<close>

section \<open>The JavaScript Map\<close>

lemma map_set_fresh: "k \<notin> fst ` set m \<Longrightarrow> map_set k v m = m @ [(k, v)]"
  by (induction m) auto

lemma keys_map_set: "fst ` set (map_set k v m) = insert k (fst ` set m)"
  by (induction m) auto

lemma distinct_map_set: "distinct (map fst m) \<Longrightarrow> distinct (map fst (map_set k v m))"
  by (induction m) (auto simp: keys_map_set)

lemma foldl_map_set_distinct:
  "distinct (map fst (acc @ es)) \<Longrightarrow> foldl (\<lambda>m e. map_set (fst e) (snd e) m) acc es = acc @ es"
proof (induction es arbitrary: acc)
  case Nil
  then show ?case by simp
next
  case (Cons e es)
  have "map_set (fst e) (snd e) acc = acc @ [e]"
    using Cons.prems by (simp add: map_set_fresh)
  moreover have "distinct (map fst ((acc @ [e]) @ es))"
    using Cons.prems by simp
  ultimately show ?case
    using Cons.IH[of "acc @ [e]"] by simp
qed

lemma new_Map_distinct: "distinct (map fst es) \<Longrightarrow> new_Map es = es"
  using foldl_map_set_distinct[of "[]" es] by (simp add: new_Map_def)

lemma new_Map_snoc: "new_Map (es @ [e]) = map_set (fst e) (snd e) (new_Map es)"
  by (simp add: new_Map_def)

section \<open>What the two loops of getKBChanges collect\<close>

lemma added_foldl_current:
  "added (foldl (classifyCurrent old) ch (map (\<lambda>a. (sys_id a, a)) xs)) =
     added ch @ map number (filter (\<lambda>a. map_of old (sys_id a) = None) xs)"
  by (induction xs arbitrary: ch) (auto simp: classifyCurrent_def map_get_def split: option.splits)

lemma updated_foldl_current:
  "updated (foldl (classifyCurrent old) ch (map (\<lambda>a. (sys_id a, a)) xs)) =
     updated ch @ map number
       (filter (\<lambda>a. case map_of old (sys_id a) of None \<Rightarrow> False
                     | Some b \<Rightarrow> version_display_value a \<noteq> version_display_value b) xs)"
  by (induction xs arbitrary: ch) (auto simp: classifyCurrent_def map_get_def split: option.splits)

lemma removed_foldl_current: "removed (foldl (classifyCurrent old) ch es) = removed ch"
  by (induction es arbitrary: ch) (auto simp: classifyCurrent_def split: option.splits)

lemma removed_foldl_older:
  "removed (foldl (classifyOlder cur) ch (map (\<lambda>a. (sys_id a, a)) xs)) =
     removed ch @ map number (filter (\<lambda>a. map_of cur (sys_id a) = None) xs)"
  by (induction xs arbitrary: ch) (auto simp: classifyOlder_def map_has_def)

lemma added_foldl_older: "added (foldl (classifyOlder cur) ch es) = added ch"
  by (induction es arbitrary: ch) (auto simp: classifyOlder_def)

lemma updated_foldl_older: "updated (foldl (classifyOlder cur) ch es) = updated ch"
  by (induction es arbitrary: ch) (auto simp: classifyOlder_def)

lemmas kb_buckets = added_foldl_current updated_foldl_current removed_foldl_current
  removed_foldl_older added_foldl_older updated_foldl_older

lemma map_of_tagged_None:
  "(map_of (map (\<lambda>a. (sys_id a, a)) xs) k = None) = (k \<notin> sys_id ` set xs)"
  by (induction xs) auto

lemma map_of_tagged_Some:
  "distinct (map sys_id xs) \<Longrightarrow>
   (map_of (map (\<lambda>a. (sys_id a, a)) xs) k = Some b) = (b \<in> set xs \<and> sys_id b = k)"
  by (induction xs) (auto simp: rev_image_eqI)

lemma updated_pred_unique:
  fixes a :: "'a article_scheme" and olderList :: "'a article_scheme list"
  assumes "distinct (map sys_id olderList)"
  shows "(case map_of (map (\<lambda>a. (sys_id a, a)) olderList) (sys_id a) of None \<Rightarrow> False
          | Some b \<Rightarrow> version_display_value a \<noteq> version_display_value b) =
        (\<exists>b \<in> set olderList. sys_id b = sys_id a \<and>
                  version_display_value a \<noteq> version_display_value b)"
proof (cases "map_of (map (\<lambda>a. (sys_id a, a)) olderList) (sys_id a)")
  case None
  then have "sys_id a \<notin> sys_id ` set olderList"
    by (simp add: map_of_tagged_None)
  then have "\<not> (\<exists>b \<in> set olderList. sys_id b = sys_id a \<and>
                  version_display_value a \<noteq> version_display_value b)"
    by (metis imageI)
  then show ?thesis using None by simp
next
  case (Some b)
  have eq: "(map_of (map (\<lambda>a. (sys_id a, a)) olderList) (sys_id a) = Some b') =
            (b' \<in> set olderList \<and> sys_id b' = sys_id a)" for b'
    by (rule map_of_tagged_Some[OF assms])
  have bin: "b \<in> set olderList" "sys_id b = sys_id a"
    using eq[of b] Some by simp_all
  have uniq: "b' = b" if "b' \<in> set olderList" "sys_id b' = sys_id a" for b'
    using eq[of b'] that Some by simp
  have "(\<exists>b' \<in> set olderList. sys_id b' = sys_id a \<and>
                  version_display_value a \<noteq> version_display_value b') =
             (version_display_value a \<noteq> version_display_value b)"
    using bin uniq by metis
  then show ?thesis using Some by simp
qed

section \<open>Identities in first-seen order, each with its last record\<close>

lemma firstSeen_snoc:
  "firstSeen (ks @ [k]) = (if k \<in> set ks then firstSeen ks else firstSeen ks @ [k])"
  by (simp add: firstSeen_def)

lemma set_firstSeen: "set (firstSeen ks) = set ks"
  by (simp add: firstSeen_def)

lemma distinct_firstSeen: "distinct (firstSeen ks)"
  by (simp add: firstSeen_def)

lemma lastBearing_snoc:
  "lastBearing (xs @ [a]) k = (if sys_id a = k then a else lastBearing xs k)"
  by (simp add: lastBearing_def)

lemma lastBearing_holds:
  assumes "k \<in> sys_id ` set xs"
  shows "lastBearing xs k \<in> set xs \<and> sys_id (lastBearing xs k) = k"
proof -
  have ne: "filter (\<lambda>a. sys_id a = k) xs \<noteq> []"
    using assms by (auto simp: filter_empty_conv)
  have "last (filter (\<lambda>a. sys_id a = k) xs) \<in> set (filter (\<lambda>a. sys_id a = k) xs)"
    using ne by (rule last_in_set)
  then show ?thesis by (simp add: lastBearing_def)
qed

lemma map_sys_id_lastRecords: "map sys_id (lastRecords xs) = firstSeen (map sys_id xs)"
proof -
  have "map (\<lambda>k. sys_id (lastBearing xs k)) (firstSeen (map sys_id xs)) =
        map (\<lambda>k. k) (firstSeen (map sys_id xs))"
    by (rule map_cong) (simp_all add: set_firstSeen lastBearing_holds)
  then show ?thesis by (simp add: lastRecords_def comp_def)
qed

lemma distinct_lastRecords: "distinct (map sys_id (lastRecords xs))"
  by (simp add: map_sys_id_lastRecords distinct_firstSeen)

lemma ids_lastRecords: "sys_id ` set (lastRecords xs) = sys_id ` set xs"
  using arg_cong[OF map_sys_id_lastRecords[of xs], of set] by (simp add: set_firstSeen)

lemma lastRecords_snoc:
  "lastRecords (xs @ [a]) =
     (if sys_id a \<in> sys_id ` set xs
      then map (\<lambda>r. if sys_id r = sys_id a then a else r) (lastRecords xs)
      else lastRecords xs @ [a])"
proof (cases "sys_id a \<in> sys_id ` set xs")
  case True
  have "map (lastBearing (xs @ [a])) (firstSeen (map sys_id xs)) =
        map (\<lambda>k. if sys_id (lastBearing xs k) = sys_id a then a else lastBearing xs k)
          (firstSeen (map sys_id xs))"
    by (rule map_cong) (auto simp: set_firstSeen lastBearing_snoc lastBearing_holds)
  then show ?thesis
    using True by (simp add: lastRecords_def firstSeen_snoc comp_def)
next
  case False
  have "map (lastBearing (xs @ [a])) (firstSeen (map sys_id xs)) =
        map (lastBearing xs) (firstSeen (map sys_id xs))"
    using False by (intro map_cong) (auto simp: set_firstSeen lastBearing_snoc)
  then show ?thesis
    using False by (simp add: lastRecords_def firstSeen_snoc lastBearing_snoc)
qed

lemma map_set_tagged:
  fixes ys :: "'a article_scheme list"
  assumes "distinct (map sys_id ys)"
  shows "map_set (sys_id a) a (map (\<lambda>r. (sys_id r, r)) ys) =
     (if sys_id a \<in> sys_id ` set ys
      then map (\<lambda>r. (sys_id r, r)) (map (\<lambda>r. if sys_id r = sys_id a then a else r) ys)
      else map (\<lambda>r. (sys_id r, r)) ys @ [(sys_id a, a)])"
  using assms
proof (induction ys)
  case Nil
  then show ?case by simp
next
  case (Cons y ys)
  show ?case
  proof (cases "sys_id y = sys_id a")
    case True
    then have "sys_id a \<notin> sys_id ` set ys"
      using Cons.prems by auto
    then have "map (\<lambda>r. if sys_id r = sys_id a then a else r) ys = ys"
      by (intro map_idI) (metis imageI)
    then show ?thesis using True by simp
  next
    case False
    then show ?thesis using Cons by auto
  qed
qed

lemma new_Map_lastRecords:
  "new_Map (map (\<lambda>a. (sys_id a, a)) xs) = map (\<lambda>a. (sys_id a, a)) (lastRecords xs)"
proof (induction xs rule: rev_induct)
  case Nil
  then show ?case by (simp add: new_Map_def lastRecords_def firstSeen_def)
next
  case (snoc a xs)
  have "new_Map (map (\<lambda>a. (sys_id a, a)) (xs @ [a])) =
        map_set (sys_id a) a (map (\<lambda>a. (sys_id a, a)) (lastRecords xs))"
    using snoc.IH by (simp add: new_Map_snoc)
  also have "\<dots> = map (\<lambda>a. (sys_id a, a)) (lastRecords (xs @ [a]))"
    by (simp add: map_set_tagged[OF distinct_lastRecords] lastRecords_snoc ids_lastRecords)
  finally show ?case .
qed

lemma kbChanges_general:
  fixes currList olderList :: "'a article_scheme list"
  shows "added (kbChanges currList olderList) =
           map number (filter (\<lambda>a. sys_id a \<notin> sys_id ` set olderList) (lastRecords currList))"
    and "updated (kbChanges currList olderList) =
           map number (filter (\<lambda>a. \<exists>b \<in> set (lastRecords olderList). sys_id b = sys_id a \<and>
                  version_display_value a \<noteq> version_display_value b) (lastRecords currList))"
    and "removed (kbChanges currList olderList) =
           map number (filter (\<lambda>a. sys_id a \<notin> sys_id ` set currList) (lastRecords olderList))"
  by (simp_all add: kbChanges_def Let_def new_Map_lastRecords kb_buckets map_of_tagged_None
        ids_lastRecords updated_pred_unique[OF distinct_lastRecords])

lemma lastRecords_distinct_id:
  assumes "distinct (map sys_id xs)"
  shows "lastRecords xs = xs"
proof -
  have "map (\<lambda>a. (sys_id a, a)) (lastRecords xs) = map (\<lambda>a. (sys_id a, a)) xs"
    using new_Map_distinct[of "map (\<lambda>a. (sys_id a, a)) xs"] assms
    by (simp add: new_Map_lastRecords comp_def)
  then have "map snd (map (\<lambda>a. (sys_id a, a)) (lastRecords xs)) =
             map snd (map (\<lambda>a. (sys_id a, a)) xs)"
    by simp
  then show ?thesis by (simp add: comp_def)
qed

lemma length_lastRecords: "length (lastRecords xs) = card (sys_id ` set xs)"
proof -
  have "length (lastRecords xs) = length (map sys_id (lastRecords xs))"
    by simp
  also have "\<dots> = card (set (map sys_id (lastRecords xs)))"
    using distinct_card[OF distinct_lastRecords[of xs]] by simp
  also have "\<dots> = card (sys_id ` set xs)"
    by (simp add: ids_lastRecords)
  finally show ?thesis .
qed

lemma length_two_filters:
  "(\<And>x. x \<in> set xs \<Longrightarrow> \<not> (P x \<and> Q x)) \<Longrightarrow>
   length (filter P xs) + length (filter Q xs) \<le> length xs"
  by (induction xs) auto

lemma same_id_same_record:
  assumes "distinct (map sys_id xs)" and "a \<in> set xs" and "b \<in> set xs" and "sys_id a = sys_id b"
  shows "a = b"
  using assms by (meson distinct_map inj_onD)

lemma kbChanges_unique_ids:
  fixes currList olderList :: "'a article_scheme list"
  assumes "distinct (map sys_id currList)" and "distinct (map sys_id olderList)"
  shows "added (kbChanges currList olderList) =
           map number (filter (\<lambda>a. sys_id a \<notin> sys_id ` set olderList) currList)
       \<and> updated (kbChanges currList olderList) =
           map number (filter (\<lambda>a. \<exists>b \<in> set olderList. sys_id b = sys_id a \<and>
                  version_display_value a \<noteq> version_display_value b) currList)
       \<and> removed (kbChanges currList olderList) =
           map number (filter (\<lambda>a. sys_id a \<notin> sys_id ` set currList) olderList)"
  using kbChanges_general[of currList olderList]
  by (simp add: lastRecords_distinct_id[OF assms(1)] lastRecords_distinct_id[OF assms(2)])

lemma differsOn_current:
  fixes currList olderList :: "'a article_scheme list"
  assumes d1: "distinct (map sys_id currList)" and a: "a \<in> set currList"
  shows "differsOn currList olderList (sys_id a) =
         (sys_id a \<notin> sys_id ` set olderList \<or>
          (\<exists>b \<in> set olderList. sys_id b = sys_id a \<and>
              version_display_value a \<noteq> version_display_value b))"
proof (rule iffI)
  assume "differsOn currList olderList (sys_id a)"
  then consider
      (new) "sys_id a \<notin> sys_id ` set olderList"
    | (gone) "sys_id a \<notin> sys_id ` set currList"
    | (chg) a' b where "a' \<in> set currList" "b \<in> set olderList" "sys_id a' = sys_id a"
        "sys_id b = sys_id a" "version_display_value a' \<noteq> version_display_value b"
    unfolding differsOn_def by auto
  then show "sys_id a \<notin> sys_id ` set olderList \<or>
          (\<exists>b \<in> set olderList. sys_id b = sys_id a \<and>
              version_display_value a \<noteq> version_display_value b)"
  proof cases
    case new
    then show ?thesis by simp
  next
    case gone
    then show ?thesis using a by (metis imageI)
  next
    case chg
    have "a' = a" using same_id_same_record[OF d1 chg(1) a chg(3)] .
    then show ?thesis using chg by metis
  qed
next
  assume r: "sys_id a \<notin> sys_id ` set olderList \<or>
          (\<exists>b \<in> set olderList. sys_id b = sys_id a \<and>
              version_display_value a \<noteq> version_display_value b)"
  have in_cur: "sys_id a \<in> sys_id ` set currList"
    using a by (rule imageI)
  show "differsOn currList olderList (sys_id a)"
  proof (cases "sys_id a \<notin> sys_id ` set olderList")
    case True
    then show ?thesis unfolding differsOn_def using in_cur by simp
  next
    case False
    then obtain b where "b \<in> set olderList" "sys_id b = sys_id a"
        "version_display_value a \<noteq> version_display_value b"
      using r by metis
    then have "\<exists>a' \<in> set currList. \<exists>b \<in> set olderList. sys_id a' = sys_id a \<and> sys_id b = sys_id a \<and>
          version_display_value a' \<noteq> version_display_value b"
      using a by metis
    then show ?thesis unfolding differsOn_def by simp
  qed
qed

section \<open>Claims about getKBChanges\<close>

text \<open>
  \<^bold>\<open>C4.\<close> For two lists in which every \<open>sys_id\<close> occurs once, \<open>getKBChanges\<close> puts
  into \<open>added\<close> exactly the articles of the new list whose \<open>sys_id\<close> is absent from the
  old list, into \<open>updated\<close> exactly those whose \<open>sys_id\<close> is in both lists with a
  different \<open>version.display_value\<close>, and into \<open>removed\<close> exactly the articles of the
  old list whose \<open>sys_id\<close> is absent from the new list; nothing else is classified.
  Each bucket holds the article's \<open>number\<close>, in the order of the list it comes from, and
  no property other than \<open>sys_id\<close> and \<open>version.display_value\<close> decides the bucket.
\<close>

theorem getKBChanges_classifies_by_identity:
  fixes currList olderList :: "'a article_scheme list"
  assumes "distinct (map sys_id currList)" and "distinct (map sys_id olderList)"
  shows "added (kbChanges currList olderList) =
           map number (filter (\<lambda>a. sys_id a \<notin> sys_id ` set olderList) currList)
       \<and> updated (kbChanges currList olderList) =
           map number (filter (\<lambda>a. \<exists>b \<in> set olderList. sys_id b = sys_id a \<and>
                  version_display_value a \<noteq> version_display_value b) currList)
       \<and> removed (kbChanges currList olderList) =
           map number (filter (\<lambda>a. sys_id a \<notin> sys_id ` set currList) olderList)"
  using kbChanges_unique_ids[OF assms] .

text \<open>The scenario of the specification, computed through the theorem.\<close>

theorem getKBChanges_classifies_by_identity_witness:
  "distinct (map sys_id exNew) \<and> distinct (map sys_id exOld)
   \<and> added (kbChanges exNew exOld) = [''KB0003'']
   \<and> updated (kbChanges exNew exOld) = [''KB0001'']
   \<and> removed (kbChanges exNew exOld) = [''KB0002'']"
proof -
  have d1: "distinct (map sys_id exNew)" by (simp add: exNew_def art_def)
  have d2: "distinct (map sys_id exOld)" by (simp add: exOld_def art_def)
  show ?thesis
    using getKBChanges_classifies_by_identity[OF d1 d2] d1 d2
    by (simp add: exNew_def exOld_def art_def)
qed

text \<open>
  \<^bold>\<open>C5, as stated, fails.\<close> The buckets hold article numbers, not identities. When a
  record leaves the list and another record with a new \<open>sys_id\<close> carries the same number,
  the number is in \<open>added\<close> and in \<open>removed\<close>, although identities are unique within
  each list.
\<close>

theorem getKBChanges_buckets_share_number_counterexample:
  "distinct (map sys_id exReissuedNew) \<and> distinct (map sys_id exReissuedOld)
   \<and> added (kbChanges exReissuedNew exReissuedOld) = [''KB0001'']
   \<and> removed (kbChanges exReissuedNew exReissuedOld) = [''KB0001'']
   \<and> set (added (kbChanges exReissuedNew exReissuedOld))
        \<inter> set (removed (kbChanges exReissuedNew exReissuedOld)) \<noteq> {}"
  by (simp add: kbChanges_general lastRecords_distinct_id exReissuedNew_def exReissuedOld_def art_def)

text \<open>
  \<^bold>\<open>C5, amended.\<close> For two lists with unique identities in which, across both lists,
  records with different \<open>sys_id\<close> carry different numbers: the three buckets are
  pairwise disjoint; the number of an article of the new list is in a bucket exactly
  when the lists differ on its identity (by presence or by version label); and an
  article of the old list whose identity is absent from the new list is an identity
  difference whose number is in \<open>removed\<close>. With disjointness, each such number is in
  exactly one bucket.
\<close>

theorem getKBChanges_buckets_disjoint:
  fixes currList olderList :: "'a article_scheme list"
  assumes d1: "distinct (map sys_id currList)" and d2: "distinct (map sys_id olderList)"
    and inj: "\<forall>a \<in> set currList \<union> set olderList. \<forall>b \<in> set currList \<union> set olderList.
                number a = number b \<longrightarrow> sys_id a = sys_id b"
  shows "set (added (kbChanges currList olderList)) \<inter> set (updated (kbChanges currList olderList)) = {}
     \<and> set (added (kbChanges currList olderList)) \<inter> set (removed (kbChanges currList olderList)) = {}
     \<and> set (updated (kbChanges currList olderList)) \<inter> set (removed (kbChanges currList olderList)) = {}
     \<and> (\<forall>a \<in> set currList.
           (number a \<in> set (added (kbChanges currList olderList))
                     \<union> set (updated (kbChanges currList olderList))
                     \<union> set (removed (kbChanges currList olderList)))
           = differsOn currList olderList (sys_id a))
     \<and> (\<forall>b \<in> set olderList. sys_id b \<notin> sys_id ` set currList \<longrightarrow>
           differsOn currList olderList (sys_id b)
           \<and> number b \<in> set (removed (kbChanges currList olderList)))"
proof -
  let ?ch = "kbChanges currList olderList"
  define isNew where "isNew = (\<lambda>a::'a article_scheme. sys_id a \<notin> sys_id ` set olderList)"
  define isUpd where "isUpd = (\<lambda>a::'a article_scheme. \<exists>b \<in> set olderList. sys_id b = sys_id a \<and>
                  version_display_value a \<noteq> version_display_value b)"
  define isGone where "isGone = (\<lambda>b::'a article_scheme. sys_id b \<notin> sys_id ` set currList)"
  note c = kbChanges_unique_ids[OF d1 d2]
  have A: "set (added ?ch) = number ` {a \<in> set currList. isNew a}"
    unfolding isNew_def c[THEN conjunct1] by simp
  have U: "set (updated ?ch) = number ` {a \<in> set currList. isUpd a}"
    unfolding isUpd_def c[THEN conjunct2, THEN conjunct1] by simp
  have R: "set (removed ?ch) = number ` {b \<in> set olderList. isGone b}"
    unfolding isGone_def c[THEN conjunct2, THEN conjunct2] by simp
  have same: "sys_id x = sys_id y"
    if "x \<in> set currList \<union> set olderList" "y \<in> set currList \<union> set olderList" "number x = number y"
    for x y
    using inj that by metis
  have new_old: "\<not> isNew x" if "x \<in> set currList" "y \<in> set olderList" "sys_id x = sys_id y" for x y
    unfolding isNew_def using that by (metis imageI)
  have gone_cur: "\<not> isGone y" if "x \<in> set currList" "y \<in> set olderList" "sys_id x = sys_id y" for x y
    unfolding isGone_def using that by (metis imageI)
  have new_upd: "\<not> isNew y" if u: "isUpd y" and yc: "y \<in> set currList" for y
  proof -
    obtain b where "b \<in> set olderList" "sys_id b = sys_id y"
      using u unfolding isUpd_def by metis
    then show ?thesis using new_old[of y b] yc by simp
  qed
  have au: "set (added ?ch) \<inter> set (updated ?ch) = {}"
  proof (rule ccontr)
    assume "set (added ?ch) \<inter> set (updated ?ch) \<noteq> {}"
    then obtain n where "n \<in> number ` {a \<in> set currList. isNew a}"
        "n \<in> number ` {a \<in> set currList. isUpd a}"
      unfolding A U by blast
    then obtain x y where x: "x \<in> set currList" "isNew x"
      and y: "y \<in> set currList" "isUpd y" and n: "number x = number y"
      by (smt (verit) imageE mem_Collect_eq)
    have "sys_id x = sys_id y" using same[of x y] x y n by simp
    then have "x = y" using same_id_same_record[OF d1 x(1) y(1)] by simp
    then show False using x(2) new_upd[OF y(2) y(1)] by simp
  qed
  have ar: "set (added ?ch) \<inter> set (removed ?ch) = {}"
  proof (rule ccontr)
    assume "set (added ?ch) \<inter> set (removed ?ch) \<noteq> {}"
    then obtain n where "n \<in> number ` {a \<in> set currList. isNew a}"
        "n \<in> number ` {b \<in> set olderList. isGone b}"
      unfolding A R by blast
    then obtain x y where x: "x \<in> set currList" "isNew x"
      and y: "y \<in> set olderList" and n: "number x = number y"
      by (smt (verit) imageE mem_Collect_eq)
    have "sys_id x = sys_id y" using same[of x y] x y n by simp
    then show False using x(2) new_old[OF x(1) y] by simp
  qed
  have ur: "set (updated ?ch) \<inter> set (removed ?ch) = {}"
  proof (rule ccontr)
    assume "set (updated ?ch) \<inter> set (removed ?ch) \<noteq> {}"
    then obtain n where "n \<in> number ` {a \<in> set currList. isUpd a}"
        "n \<in> number ` {b \<in> set olderList. isGone b}"
      unfolding U R by blast
    then obtain x y where x: "x \<in> set currList"
      and y: "y \<in> set olderList" "isGone y" and n: "number x = number y"
      by (smt (verit) imageE mem_Collect_eq)
    have "sys_id x = sys_id y" using same[of x y] x y n by simp
    then show False using y(2) gone_cur[OF x y(1)] by simp
  qed
  have cur: "(number a \<in> set (added ?ch) \<union> set (updated ?ch) \<union> set (removed ?ch))
             = differsOn currList olderList (sys_id a)" if a: "a \<in> set currList" for a
  proof -
    have own: "x = a" if "x \<in> set currList" "number x = number a" for x
      using same_id_same_record[OF d1 that(1) a] same[of x a] that a by simp
    have inA: "(number a \<in> set (added ?ch)) = isNew a"
    proof (rule iffI)
      assume "number a \<in> set (added ?ch)"
      then obtain x where x: "x \<in> set currList" "isNew x" "number x = number a"
        unfolding A by (smt (verit) imageE mem_Collect_eq)
      have "x = a" using own x by simp
      then show "isNew a" using x by simp
    next
      assume "isNew a"
      then have "a \<in> {a \<in> set currList. isNew a}"
        using a by simp
      then show "number a \<in> set (added ?ch)" unfolding A by (rule imageI)
    qed
    have inU: "(number a \<in> set (updated ?ch)) = isUpd a"
    proof (rule iffI)
      assume "number a \<in> set (updated ?ch)"
      then obtain x where x: "x \<in> set currList" "isUpd x" "number x = number a"
        unfolding U by (smt (verit) imageE mem_Collect_eq)
      have "x = a" using own x by simp
      then show "isUpd a" using x by simp
    next
      assume "isUpd a"
      then have "a \<in> {a \<in> set currList. isUpd a}"
        using a by simp
      then show "number a \<in> set (updated ?ch)" unfolding U by (rule imageI)
    qed
    have notR: "number a \<notin> set (removed ?ch)"
    proof
      assume "number a \<in> set (removed ?ch)"
      then obtain y where y: "y \<in> set olderList" "isGone y" and n: "number y = number a"
        unfolding R by (smt (verit) imageE mem_Collect_eq)
      have "sys_id a = sys_id y" using same[of y a] y a n by simp
      then show False using y(2) gone_cur[OF a y(1)] by simp
    qed
    have "differsOn currList olderList (sys_id a) = (isNew a \<or> isUpd a)"
      unfolding isNew_def isUpd_def by (rule differsOn_current[OF d1 a])
    then show ?thesis
      using inA inU notR by simp
  qed
  have old: "differsOn currList olderList (sys_id b) \<and> number b \<in> set (removed ?ch)"
    if b: "b \<in> set olderList" and nb: "sys_id b \<notin> sys_id ` set currList" for b
  proof -
    have "sys_id b \<in> sys_id ` set olderList" using b by (rule imageI)
    then have "differsOn currList olderList (sys_id b)"
      unfolding differsOn_def using nb by simp
    moreover have "b \<in> {b \<in> set olderList. isGone b}"
      using b nb by (simp add: isGone_def)
    then have "number b \<in> set (removed ?ch)"
      unfolding R by (rule imageI)
    ultimately show ?thesis by simp
  qed
  show ?thesis
  proof (intro conjI ballI impI)
    show "set (added ?ch) \<inter> set (updated ?ch) = {}" by (rule au)
    show "set (added ?ch) \<inter> set (removed ?ch) = {}" by (rule ar)
    show "set (updated ?ch) \<inter> set (removed ?ch) = {}" by (rule ur)
    show "(number a \<in> set (added ?ch) \<union> set (updated ?ch) \<union> set (removed ?ch))
             = differsOn currList olderList (sys_id a)" if "a \<in> set currList" for a
      using that by (rule cur)
    show "differsOn currList olderList (sys_id b)"
      if "b \<in> set olderList" "sys_id b \<notin> sys_id ` set currList" for b
      using old[OF that] by simp
    show "number b \<in> set (removed ?ch)"
      if "b \<in> set olderList" "sys_id b \<notin> sys_id ` set currList" for b
      using old[OF that] by simp
  qed
qed

theorem getKBChanges_buckets_disjoint_witness:
  "distinct (map sys_id exNew) \<and> distinct (map sys_id exOld)
   \<and> set (added (kbChanges exNew exOld)) \<inter> set (updated (kbChanges exNew exOld)) = {}
   \<and> set (added (kbChanges exNew exOld)) \<inter> set (removed (kbChanges exNew exOld)) = {}
   \<and> set (updated (kbChanges exNew exOld)) \<inter> set (removed (kbChanges exNew exOld)) = {}
   \<and> differsOn exNew exOld ''K1'' \<and> differsOn exNew exOld ''K2'' \<and> differsOn exNew exOld ''K3''"
proof -
  have d1: "distinct (map sys_id exNew)" by (simp add: exNew_def art_def)
  have d2: "distinct (map sys_id exOld)" by (simp add: exOld_def art_def)
  have inj: "\<forall>a \<in> set exNew \<union> set exOld. \<forall>b \<in> set exNew \<union> set exOld.
         number a = number b \<longrightarrow> sys_id a = sys_id b"
    by (simp add: exNew_def exOld_def art_def)
  have df: "differsOn exNew exOld ''K1'' \<and> differsOn exNew exOld ''K2'' \<and> differsOn exNew exOld ''K3''"
    by (simp add: differsOn_def exNew_def exOld_def art_def)
  note t = getKBChanges_buckets_disjoint[OF d1 d2 inj]
  show ?thesis
    using d1 d2 df t[THEN conjunct1] t[THEN conjunct2, THEN conjunct1]
      t[THEN conjunct2, THEN conjunct2, THEN conjunct1] by simp
qed

text \<open>
  \<^bold>\<open>C9.\<close> For arbitrary lists, also lists that hold several records with one \<open>sys_id\<close>,
  \<open>getKBChanges\<close> computes what it would compute on the lists \<open>lastRecords\<close>: one record
  per distinct \<open>sys_id\<close>, the last one bearing it, at the position where the \<open>sys_id\<close>
  first occurs. Hence \<open>added\<close> and \<open>updated\<close> together hold at most one entry per distinct
  \<open>sys_id\<close> of the new list, and \<open>removed\<close> at most one per distinct \<open>sys_id\<close> of the old
  list.
\<close>

theorem getKBChanges_last_record_wins:
  fixes currList olderList :: "'a article_scheme list"
  shows "kbChanges currList olderList = kbChanges (lastRecords currList) (lastRecords olderList)
     \<and> distinct (map sys_id (lastRecords currList))
     \<and> distinct (map sys_id (lastRecords olderList))
     \<and> added (kbChanges currList olderList) =
           map number (filter (\<lambda>a. sys_id a \<notin> sys_id ` set olderList) (lastRecords currList))
     \<and> updated (kbChanges currList olderList) =
           map number (filter (\<lambda>a. \<exists>b \<in> set (lastRecords olderList). sys_id b = sys_id a \<and>
                  version_display_value a \<noteq> version_display_value b) (lastRecords currList))
     \<and> removed (kbChanges currList olderList) =
           map number (filter (\<lambda>a. sys_id a \<notin> sys_id ` set currList) (lastRecords olderList))
     \<and> length (added (kbChanges currList olderList)) + length (updated (kbChanges currList olderList))
           \<le> card (sys_id ` set currList)
     \<and> length (removed (kbChanges currList olderList)) \<le> card (sys_id ` set olderList)"
proof -
  let ?ch = "kbChanges currList olderList"
  let ?P = "\<lambda>a::'a article_scheme. sys_id a \<notin> sys_id ` set olderList"
  let ?Q = "\<lambda>a::'a article_scheme. \<exists>b \<in> set (lastRecords olderList). sys_id b = sys_id a \<and>
                  version_display_value a \<noteq> version_display_value b"
  have idem: "lastRecords (lastRecords xs) = lastRecords xs" for xs :: "'a article_scheme list"
    by (rule lastRecords_distinct_id[OF distinct_lastRecords])
  have a: "added ?ch = map number (filter ?P (lastRecords currList))"
    and u: "updated ?ch = map number (filter ?Q (lastRecords currList))"
    and r: "removed ?ch = map number (filter (\<lambda>a. sys_id a \<notin> sys_id ` set currList) (lastRecords olderList))"
    by (rule kbChanges_general)+
  have eq: "?ch = kbChanges (lastRecords currList) (lastRecords olderList)"
    by (rule changes.equality) (simp_all add: kbChanges_general idem ids_lastRecords)
  have excl: "\<not> (?P x \<and> ?Q x)" for x
    using ids_lastRecords[of olderList] by (metis imageI)
  have "length (added ?ch) + length (updated ?ch) \<le> length (lastRecords currList)"
    unfolding a u length_map by (rule length_two_filters) (rule excl)
  then have l1: "length (added ?ch) + length (updated ?ch) \<le> card (sys_id ` set currList)"
    by (simp add: length_lastRecords)
  have "length (removed ?ch) \<le> length (lastRecords olderList)"
    unfolding r length_map by (rule length_filter_le)
  then have l2: "length (removed ?ch) \<le> card (sys_id ` set olderList)"
    by (simp add: length_lastRecords)
  show ?thesis
    using eq a u r l1 l2 distinct_lastRecords[of currList] distinct_lastRecords[of olderList]
    by simp
qed

text \<open>
  A new list with two records for K1: the last one (version v1, as in the old list)
  decides, so K1 is not reported as updated.
\<close>

theorem getKBChanges_last_record_wins_witness:
  "lastRecords exDupNew = [art ''K1'' ''KB0001'' ''v1'', art ''K3'' ''KB0003'' ''v1'']
   \<and> added (kbChanges exDupNew exOld) = [''KB0003'']
   \<and> updated (kbChanges exDupNew exOld) = []
   \<and> removed (kbChanges exDupNew exOld) = [''KB0002'']"
proof -
  have l: "lastRecords exDupNew = [art ''K1'' ''KB0001'' ''v1'', art ''K3'' ''KB0003'' ''v1'']"
    by (simp add: lastRecords_def firstSeen_def lastBearing_def exDupNew_def art_def)
  have lo: "lastRecords exOld = exOld"
    by (rule lastRecords_distinct_id) (simp add: exOld_def art_def)
  note t = getKBChanges_last_record_wins[of exDupNew exOld]
  have a: "added (kbChanges exDupNew exOld) = [''KB0003'']"
    unfolding t[THEN conjunct2, THEN conjunct2, THEN conjunct2, THEN conjunct1] l
    by (simp add: exOld_def art_def)
  have u: "updated (kbChanges exDupNew exOld) = []"
    unfolding t[THEN conjunct2, THEN conjunct2, THEN conjunct2, THEN conjunct2, THEN conjunct1] l lo
    by (simp add: exOld_def art_def)
  have r: "removed (kbChanges exDupNew exOld) = [''KB0002'']"
    unfolding t[THEN conjunct2, THEN conjunct2, THEN conjunct2, THEN conjunct2, THEN conjunct2,
                THEN conjunct1] lo
    by (simp add: exOld_def exDupNew_def art_def)
  show ?thesis using l a u r by simp
qed

section \<open>Looking up paths after the basic file operations\<close>

lemma map_of_filter_fst:
  "map_of (filter (\<lambda>e. P (fst e)) xs) k = (if P k then map_of xs k else None)"
  by (induction xs) auto

lemma lookup_remove: "fs_lookup (fs_remove p fs) q = (if q = p then None else fs_lookup fs q)"
  using map_of_filter_fst[of "\<lambda>k. k \<noteq> p" fs q] by (simp add: fs_lookup_def fs_remove_def)

lemma lookup_put: "fs_lookup (fs_put p n fs) q = (if q = p then Some n else fs_lookup fs q)"
  using lookup_remove[of p fs q] by (simp add: fs_put_def fs_lookup_def)

lemma lookup_rm_rf: "fs_lookup (fs_rm_rf p fs) q = (if prefix p q then None else fs_lookup fs q)"
  using map_of_filter_fst[of "\<lambda>k. \<not> prefix p k" fs q] by (simp add: fs_lookup_def fs_rm_rf_def)

lemma set_children: "set (children fs dir) = {n. fs_lookup fs (dir @ [n]) \<noteq> None}"
proof -
  have "(n \<in> set (children fs dir)) = (dir @ [n] \<in> fst ` set fs)" for n
  proof (rule iffI)
    assume "n \<in> set (children fs dir)"
    then obtain e where e: "e \<in> set fs" "fst e \<noteq> []" "butlast (fst e) = dir" "last (fst e) = n"
      by (auto simp: children_def)
    have "fst e = dir @ [n]"
      using e(2,3,4) append_butlast_last_id[of "fst e"] by simp
    then show "dir @ [n] \<in> fst ` set fs" using e(1) by (metis imageI)
  next
    assume "dir @ [n] \<in> fst ` set fs"
    then obtain e where e: "e \<in> set fs" "fst e = dir @ [n]" by auto
    then have "e \<in> set (filter (\<lambda>e. fst e \<noteq> [] \<and> butlast (fst e) = dir) fs)" by simp
    then have "last (fst e) \<in> set (children fs dir)"
      unfolding children_def set_remdups set_map by (rule imageI)
    then show "n \<in> set (children fs dir)" using e(2) by simp
  qed
  then show ?thesis
    by (auto simp: fs_lookup_def map_of_eq_None_iff)
qed

section \<open>What the operations leave untouched, and what rendering adds\<close>

lemma writeFile_lookup:
  "writeFile p c fs = Inr fs' \<Longrightarrow> fs_lookup fs' q = (if q = p then Some (File c) else fs_lookup fs q)"
  by (auto simp: writeFile_def lookup_put split: if_splits option.splits node.splits)

lemma writeFile_ok:
  "p \<noteq> [] \<Longrightarrow> fs_lookup fs (butlast p) = Some Dir \<Longrightarrow> fs_lookup fs p \<noteq> Some Dir \<Longrightarrow>
   writeFile p c fs = Inr (fs_put p (File c) fs)"
  by (auto simp: writeFile_def split: option.splits node.splits)

lemma getArticlesList_frame:
  "q \<noteq> targetFile \<Longrightarrow> fs_lookup (snd (getArticlesList r targetFile fs)) q = fs_lookup fs q"
  by (auto simp: getArticlesList_def writeFile_lookup split: option.splits sum.splits)

lemma getKBChanges_frame:
  "getKBChanges cur old target now fs = (res, fs') \<Longrightarrow> q \<noteq> target \<Longrightarrow>
   fs_lookup fs' q = fs_lookup fs q"
  by (auto simp: getKBChanges_def writeFile_lookup split: sum.splits)

lemma renameSync_file_frame:
  "fs_lookup fs src = Some (File c) \<Longrightarrow> renameSync src dst fs = Inr fs' \<Longrightarrow>
   q \<noteq> src \<Longrightarrow> q \<noteq> dst \<Longrightarrow> fs_lookup fs' q = fs_lookup fs q"
  by (auto simp: renameSync_def lookup_put lookup_remove split: option.splits node.splits)

lemma doListingWithChanges_frame:
  assumes l: "fs_lookup fs (folderPath @ [listFileName @ ''.json'']) = Some (File c)"
    and d: "doListingWithChanges folderPath listFileName changesFileName r now fs = (res, fs1)"
    and q: "q \<noteq> folderPath @ [listFileName @ ''.json'']"
           "q \<noteq> folderPath @ [listFileName @ ''.json'' @ ''.old'']"
           "q \<noteq> folderPath @ [changesFileName @ ''.json'']"
  shows "fs_lookup fs1 q = fs_lookup fs q"
proof (cases "renameSync (folderPath @ [listFileName @ ''.json''])
                (folderPath @ [listFileName @ ''.json'' @ ''.old'']) fs")
  case (Inl e)
  then show ?thesis using d l by (simp add: doListingWithChanges_def existsSync_def)
next
  case (Inr fs0)
  have g: "getKBChanges (folderPath @ [listFileName @ ''.json''])
                 (folderPath @ [listFileName @ ''.json'' @ ''.old''])
                 (folderPath @ [changesFileName @ ''.json'']) now
                 (snd (getArticlesList r (folderPath @ [listFileName @ ''.json'']) fs0)) = (res, fs1)"
    using d l Inr by (simp add: doListingWithChanges_def existsSync_def)
  have "fs_lookup fs1 q = fs_lookup (snd (getArticlesList r (folderPath @ [listFileName @ ''.json'']) fs0)) q"
    using getKBChanges_frame[OF g q(3)] .
  also have "\<dots> = fs_lookup fs0 q"
    using getArticlesList_frame[OF q(1)] .
  also have "\<dots> = fs_lookup fs q"
    using renameSync_file_frame[OF l Inr q(1) q(2)] .
  finally show ?thesis .
qed

lemma PDFs_not_json: "''PDFs'' \<noteq> l @ ''.json''"
proof
  assume "''PDFs'' = l @ ''.json''"
  then have "last ''PDFs'' = last (l @ ''.json'')" by simp
  then show False by simp
qed

lemma PDFs_not_old: "''PDFs'' \<noteq> l @ ''.json'' @ ''.old''"
proof
  assume "''PDFs'' = l @ ''.json'' @ ''.old''"
  then have "last ''PDFs'' = last (l @ ''.json'' @ ''.old'')" by simp
  then show False by simp
qed

lemma doListingWithChanges_keeps_PDFs:
  assumes l: "fs_lookup fs (folderPath @ [listFileName @ ''.json'']) = Some (File c)"
    and d: "doListingWithChanges folderPath listFileName changesFileName r now fs = (res, fs1)"
  shows "fs_lookup fs1 (folderPath @ [''PDFs'']) = fs_lookup fs (folderPath @ [''PDFs''])"
    and "fs_lookup fs1 (folderPath @ [''PDFs'', x]) = fs_lookup fs (folderPath @ [''PDFs'', x])"
proof -
  show "fs_lookup fs1 (folderPath @ [''PDFs'']) = fs_lookup fs (folderPath @ [''PDFs''])"
    by (rule doListingWithChanges_frame[OF l d]) (simp_all add: PDFs_not_json PDFs_not_old)
  show "fs_lookup fs1 (folderPath @ [''PDFs'', x]) = fs_lookup fs (folderPath @ [''PDFs'', x])"
    by (rule doListingWithChanges_frame[OF l d]) simp_all
qed

lemma deleteEach_only_removes:
  "fs_lookup (deleteEach folder dels fs) q = None \<or> fs_lookup (deleteEach folder dels fs) q = fs_lookup fs q"
proof (induction dels arbitrary: fs)
  case Nil
  then show ?case by simp
next
  case (Cons d dels)
  show ?case
  proof (cases "fs_lookup fs (path_join folder d)")
    case None
    then show ?thesis by simp
  next
    case (Some n)
    show ?thesis
    proof (cases n)
      case Dir
      then show ?thesis
        using Some Cons.IH[of "fs_rm_rf (path_join folder d) fs"] by (auto simp: lookup_rm_rf)
    next
      case (File c)
      then show ?thesis
        using Some Cons.IH[of "fs_remove (path_join folder d) fs"] by (auto simp: lookup_remove)
    qed
  qed
qed

lemma deleteEach_keeps:
  "(\<And>d. d \<in> set dels \<Longrightarrow> \<not> prefix (path_join folder d) q) \<Longrightarrow>
   fs_lookup (deleteEach folder dels fs) q = fs_lookup fs q"
proof (induction dels arbitrary: fs)
  case Nil
  then show ?case by simp
next
  case (Cons d dels)
  have np: "\<not> prefix (path_join folder d) q" using Cons.prems by simp
  then have ne: "q \<noteq> path_join folder d" by auto
  have ih: "fs_lookup (deleteEach folder dels fs') q = fs_lookup fs' q" for fs'
    using Cons.IH[of fs'] Cons.prems by simp
  show ?case
  proof (cases "fs_lookup fs (path_join folder d)")
    case None
    then show ?thesis by simp
  next
    case (Some n)
    then show ?thesis
      using np ne ih by (cases n) (simp_all add: lookup_rm_rf lookup_remove)
  qed
qed

lemma removeFolderContents_only_removes:
  "fs_lookup (removeFolderContents dir pats fs) q = None \<or>
   fs_lookup (removeFolderContents dir pats fs) q = fs_lookup fs q"
  using deleteEach_only_removes[of dir _ fs q]
  by (auto simp: removeFolderContents_def split: sum.splits)

lemma set_set_add: "set (set_add x s) = insert x (set s)"
  by (auto simp: set_add_def)

lemma set_addAll: "set (addAll xs s) = set xs \<union> set s"
  unfolding addAll_def by (induction xs arbitrary: s) (auto simp: set_set_add)

lemma removeFolderContents_function_keeps_dir:
  "fs_lookup (removeFolderContents dir (PatFunction k) fs) dir = fs_lookup fs dir"
proof (cases "readdir fs dir")
  case (Inl e)
  then show ?thesis by (simp add: removeFolderContents_def)
next
  case (Inr files)
  show ?thesis
  proof (cases "k > 0")
    case True
    then show ?thesis using Inr by (simp add: removeFolderContents_def filesToDelete_def)
  next
    case False
    have "fs_lookup (deleteEach dir (addAll (map (\<lambda>f. Rel [f]) files) []) fs) dir = fs_lookup fs dir"
      by (rule deleteEach_keeps) (auto simp: set_addAll)
    then show ?thesis using Inr False by (simp add: removeFolderContents_def filesToDelete_def)
  qed
qed

lemma pdf_name_inj: "(n @ ''.pdf'' = m @ ''.pdf'') = (n = m)"
  by simp

lemma renderEach_lookup:
  assumes "fs_lookup fs dir = Some Dir"
    and "\<And>n. n \<in> set ns \<Longrightarrow> render_ok r n"
    and "\<And>x. fs_lookup fs (dir @ [x]) \<noteq> Some Dir"
  shows "fs_lookup (renderEach r dir ns fs) q =
           (if q \<in> (\<lambda>n. dir @ [n @ ''.pdf'']) ` set ns then Some (File (Pdf (butlast (butlast (butlast (butlast (last q)))))))
            else fs_lookup fs q)"
  using assms
proof (induction ns arbitrary: fs)
  case Nil
  then show ?case by simp
next
  case (Cons n ns)
  let ?p = "dir @ [n @ ''.pdf'']"
  let ?fs = "fs_put ?p (File (Pdf n)) fs"
  have w: "writeFile ?p (Pdf n) fs = Inr ?fs"
    using Cons.prems(1,3) by (intro writeFile_ok) simp_all
  have d: "fs_lookup ?fs dir = Some Dir"
    using Cons.prems(1) by (simp add: lookup_put)
  have nd: "fs_lookup ?fs (dir @ [x]) \<noteq> Some Dir" for x
    using Cons.prems(3)[of x] by (simp add: lookup_put)
  have ih: "fs_lookup (renderEach r dir ns ?fs) q =
           (if q \<in> (\<lambda>n. dir @ [n @ ''.pdf'']) ` set ns then Some (File (Pdf (butlast (butlast (butlast (butlast (last q)))))))
            else fs_lookup ?fs q)"
    using Cons.IH[OF d _ nd] Cons.prems(2) by simp
  have step: "renderEach r dir (n # ns) fs = renderEach r dir ns ?fs"
    using w Cons.prems(2)[of n] by simp
  have b: "butlast (butlast (butlast (butlast (n @ ''.pdf'')))) = n"
    by (simp add: butlast_append)
  show ?case
    unfolding step ih using b by (auto simp: lookup_put)
qed

lemma renderEach_children:
  assumes d: "fs_lookup fs dir = Some Dir"
    and ok: "\<And>n. n \<in> set ns \<Longrightarrow> render_ok r n"
    and nd: "\<And>x. fs_lookup fs (dir @ [x]) \<noteq> Some Dir"
  shows "set (children (renderEach r dir ns fs) dir) = set (children fs dir) \<union> pdfNames ns"
proof -
  have l: "fs_lookup (renderEach r dir ns fs) (dir @ [x]) =
           (if dir @ [x] \<in> (\<lambda>n. dir @ [n @ ''.pdf'']) ` set ns
            then Some (File (Pdf (butlast (butlast (butlast (butlast (last (dir @ [x]))))))))
            else fs_lookup fs (dir @ [x]))" for x
    by (rule renderEach_lookup[OF d ok nd])
  have m: "(dir @ [x] \<in> (\<lambda>n. dir @ [n @ ''.pdf'']) ` set ns) = (x \<in> pdfNames ns)" for x
    by (auto simp: pdfNames_def)
  have "(fs_lookup (renderEach r dir ns fs) (dir @ [x]) \<noteq> None) =
        (fs_lookup fs (dir @ [x]) \<noteq> None \<or> x \<in> pdfNames ns)" for x
    unfolding l m by simp
  then show ?thesis
    unfolding set_children by auto
qed

lemma exRun_report:
  "doListingWithChanges exFolder ''file_list'' ''file_changes'' exRemote ''t'' exFs =
     (Some \<lparr>last_updated_on = ''t'',
            changes = \<lparr>added = [''KB0003''], updated = [''KB0001''], removed = [''KB0002'']\<rparr>\<rparr>,
      snd (doListingWithChanges exFolder ''file_list'' ''file_changes'' exRemote ''t'' exFs))"
proof -
  have "fst (doListingWithChanges exFolder ''file_list'' ''file_changes'' exRemote ''t'' exFs) =
     Some \<lparr>last_updated_on = ''t'',
            changes = \<lparr>added = [''KB0003''], updated = [''KB0001''], removed = [''KB0002'']\<rparr>\<rparr>"
    by code_simp
  then show ?thesis by (metis prod.collapse)
qed

section \<open>Well-formed tables, the deletion loop and the workspace reset\<close>

lemma wf_parent:
  assumes "wf_fs fs" and "fs_lookup fs p \<noteq> None" and "butlast p \<noteq> []"
  shows "fs_lookup fs (butlast p) = Some Dir"
proof -
  obtain n where "map_of fs p = Some n" using assms(2) by (auto simp: fs_lookup_def)
  then have "(p, n) \<in> set fs" by (rule map_of_SomeD)
  then have "butlast (fst (p, n)) = [] \<or> fs_lookup fs (butlast (fst (p, n))) = Some Dir"
    using assms(1) unfolding wf_fs_def list_all_iff by blast
  then show ?thesis using assms(3) by simp
qed

lemma wf_ancestors:
  assumes wf: "wf_fs fs"
  shows "fs_lookup fs p \<noteq> None \<Longrightarrow> prefix q p \<Longrightarrow> q \<noteq> [] \<Longrightarrow> q \<noteq> p \<Longrightarrow> fs_lookup fs q = Some Dir"
proof (induction p rule: rev_induct)
  case Nil
  then show ?case by simp
next
  case (snoc x p)
  have qp: "prefix q p" using snoc.prems(2,4) by (auto simp: prefix_snoc)
  then have "p \<noteq> []" using snoc.prems(3) by auto
  then have par: "fs_lookup fs p = Some Dir"
    using wf_parent[OF wf snoc.prems(1)] by simp
  show ?case
  proof (cases "q = p")
    case True
    then show ?thesis using par by simp
  next
    case False
    then show ?thesis using snoc.IH qp snoc.prems(3) par by simp
  qed
qed

lemma wf_no_orphans:
  assumes "wf_fs fs" and "fs_lookup fs p \<noteq> Some Dir" and "p \<noteq> []"
  shows "fs_lookup fs (p @ [x]) = None"
proof (rule ccontr)
  assume "fs_lookup fs (p @ [x]) \<noteq> None"
  then have "fs_lookup fs (butlast (p @ [x])) = Some Dir"
    using assms(3) by (intro wf_parent[OF assms(1)]) simp_all
  then show False using assms(2) by simp
qed

lemma glob_sync_single:
  "glob_sync fs cwd (Rel [seg]) = map (\<lambda>n. Rel [n]) (filter (seg_match seg) (children fs cwd))"
  by (simp add: map_concat comp_def)

lemma distinct_set_add: "distinct s \<Longrightarrow> distinct (set_add x s)"
  by (simp add: set_add_def)

lemma distinct_addAll: "distinct s \<Longrightarrow> distinct (addAll xs s)"
  unfolding addAll_def by (induction xs arbitrary: s) (simp_all add: distinct_set_add)

lemma foldl_addAll:
  "distinct acc \<Longrightarrow>
   distinct (foldl (\<lambda>acc pattern. addAll (g pattern) acc) acc ps) \<and>
   set (foldl (\<lambda>acc pattern. addAll (g pattern) acc) acc ps) = set acc \<union> (\<Union>p \<in> set ps. set (g p))"
proof (induction ps arbitrary: acc)
  case Nil
  then show ?case by simp
next
  case (Cons p ps)
  have "distinct (addAll (g p) acc)" using Cons.prems by (rule distinct_addAll)
  from Cons.IH[OF this] show ?case by (auto simp: set_addAll)
qed

text \<open>Every name in the list exists and no name occurs twice: the loop deletes them all.\<close>

lemma deleteEach_removes:
  "distinct ns \<Longrightarrow> (\<And>k. k \<in> set ns \<Longrightarrow> fs_lookup fs (folder @ [k]) \<noteq> None) \<Longrightarrow> n \<in> set ns \<Longrightarrow>
   fs_lookup (deleteEach folder (map (\<lambda>n. Rel [n]) ns) fs) (folder @ [n]) = None \<and>
   (fs_lookup fs (folder @ [n]) = Some Dir \<longrightarrow>
      (\<forall>q. fs_lookup (deleteEach folder (map (\<lambda>n. Rel [n]) ns) fs) (folder @ [n] @ q) = None))"
proof (induction ns arbitrary: fs)
  case Nil
  then show ?case by simp
next
  case (Cons m ns)
  obtain nd where nd: "fs_lookup fs (folder @ [m]) = Some nd"
    using Cons.prems(2)[of m] by auto
  define fs' where "fs' = (case nd of Dir \<Rightarrow> fs_rm_rf (folder @ [m]) fs
                                   | File c \<Rightarrow> fs_remove (folder @ [m]) fs)"
  have step: "deleteEach folder (map (\<lambda>n. Rel [n]) (m # ns)) fs = deleteEach folder (map (\<lambda>n. Rel [n]) ns) fs'"
    using nd by (cases nd) (simp_all add: fs'_def)
  have other: "fs_lookup fs' (folder @ [k] @ q') = fs_lookup fs (folder @ [k] @ q')" if "k \<noteq> m" for k q'
    using that by (cases nd) (simp_all add: fs'_def lookup_rm_rf lookup_remove)
  have gone: "fs_lookup fs' (folder @ [m]) = None"
    by (cases nd) (simp_all add: fs'_def lookup_rm_rf lookup_remove)
  have gone_below: "fs_lookup fs' (folder @ [m] @ q') = None" if "nd = Dir" for q'
    using that by (simp add: fs'_def lookup_rm_rf)
  have d: "distinct ns" and mn: "m \<notin> set ns" using Cons.prems(1) by simp_all
  have ex': "fs_lookup fs' (folder @ [k]) \<noteq> None" if "k \<in> set ns" for k
  proof -
    have "k \<noteq> m" using that mn by auto
    then show ?thesis using other[of k "[]"] Cons.prems(2)[of k] that by simp
  qed
  show ?case
  proof (cases "n = m")
    case True
    have a: "fs_lookup (deleteEach folder (map (\<lambda>n. Rel [n]) ns) fs') (folder @ [m]) = None"
      using deleteEach_only_removes[of folder _ fs' "folder @ [m]"] gone by auto
    have b: "fs_lookup (deleteEach folder (map (\<lambda>n. Rel [n]) ns) fs') (folder @ [m] @ q) = None"
      if "fs_lookup fs (folder @ [m]) = Some Dir" for q
    proof -
      have "nd = Dir" using that nd by simp
      then show ?thesis
        using deleteEach_only_removes[of folder _ fs' "folder @ [m] @ q"] gone_below by auto
    qed
    show ?thesis unfolding step True using a b by simp
  next
    case False
    then have n: "n \<in> set ns" using Cons.prems(3) by simp
    have same: "fs_lookup fs' (folder @ [n]) = fs_lookup fs (folder @ [n])"
      using other[OF False, of "[]"] by simp
    show ?thesis unfolding step using Cons.IH[OF d ex' n] same by simp
  qed
qed

lemma set_add_map: "inj f \<Longrightarrow> set_add (f x) (map f s) = map f (set_add x s)"
  by (simp add: set_add_def inj_image_mem_iff)

lemma addAll_map: "inj f \<Longrightarrow> addAll (map f xs) (map f s) = map f (addAll xs s)"
  unfolding addAll_def by (induction xs arbitrary: s) (simp_all add: set_add_map)

lemma inj_Rel1: "inj (\<lambda>n. Rel [n])"
  by (rule injI) simp

lemma seg_match_PDFs: "seg_match ''PDFs'' ''PDFs''"
  by (simp add: seg_match_def)
lemma resetNames_props:
  "distinct (resetNames fs folderPath)"
  "set (resetNames fs folderPath) \<subseteq> set (children fs folderPath)"
  "''PDFs'' \<in> set (children fs folderPath) \<Longrightarrow> ''PDFs'' \<in> set (resetNames fs folderPath)"
  by (auto simp: resetNames_def distinct_addAll set_addAll seg_match_PDFs)

lemma resetWorkspace_loop:
  assumes "fs_lookup fs folderPath = Some Dir"
  shows "resetWorkspace folderPath fs =
           deleteEach folderPath (map (\<lambda>n. Rel [n]) (resetNames fs folderPath)) fs"
proof -
  have m: "addAll (map (\<lambda>n. Rel [n]) xs) (map (\<lambda>n. Rel [n]) s) = map (\<lambda>n. Rel [n]) (addAll xs s)"
    for xs s
    by (rule addAll_map[OF inj_Rel1])
  have e: "addAll (map (\<lambda>n. Rel [n]) xs) [] = map (\<lambda>n. Rel [n]) (addAll xs [])" for xs
    using m[of xs "[]"] by simp
  have fd: "filesToDelete fs folderPath
          (PatArray [Rel [''PDFs''], Rel [''*.json*''], Rel [''*.pdf''], Rel [''*.zip'']]) files
        = Inr (map (\<lambda>n. Rel [n]) (resetNames fs folderPath))" for files
    by (simp add: filesToDelete_def glob_sync_single e m resetNames_def del: glob_sync.simps)
  show ?thesis
    using assms by (simp add: resetWorkspace_def removeFolderContents_def readdir_def fd)
qed

lemma resetWorkspace_facts:
  assumes wf: "wf_fs fs" and d: "fs_lookup fs folderPath = Some Dir"
  shows "fs_lookup (resetWorkspace folderPath fs) folderPath = Some Dir"
    and "prefix q folderPath \<Longrightarrow> fs_lookup (resetWorkspace folderPath fs) q = fs_lookup fs q"
    and "fs_lookup (resetWorkspace folderPath fs) (folderPath @ [''PDFs'']) = None"
    and "fs_lookup (resetWorkspace folderPath fs) (folderPath @ [''PDFs''] @ [x]) = None"
proof -
  let ?ns = "resetNames fs folderPath"
  note loop = resetWorkspace_loop[OF d]
  have ex: "fs_lookup fs (folderPath @ [k]) \<noteq> None" if "k \<in> set ?ns" for k
    using that resetNames_props(2)[of fs folderPath] by (auto simp: set_children)
  show keep: "fs_lookup (resetWorkspace folderPath fs) q = fs_lookup fs q" if "prefix q folderPath" for q
    unfolding loop
  proof (rule deleteEach_keeps)
    fix dd assume "dd \<in> set (map (\<lambda>n. Rel [n]) ?ns)"
    then obtain n where "dd = Rel [n]" by auto
    moreover have "\<not> prefix (folderPath @ [n]) q"
    proof
      assume "prefix (folderPath @ [n]) q"
      then have "length (folderPath @ [n]) \<le> length q" by (rule prefix_length_le)
      moreover have "length q \<le> length folderPath" using that by (rule prefix_length_le)
      ultimately show False by simp
    qed
    ultimately show "\<not> prefix (path_join folderPath dd) q" by simp
  qed
  show "fs_lookup (resetWorkspace folderPath fs) folderPath = Some Dir"
    using keep[of folderPath] d by simp
  show "fs_lookup (resetWorkspace folderPath fs) (folderPath @ [''PDFs'']) = None"
  proof (cases "fs_lookup fs (folderPath @ [''PDFs'']) = None")
    case True
    then show ?thesis
      using removeFolderContents_only_removes[of folderPath _ fs "folderPath @ [''PDFs'']"]
      by (auto simp: resetWorkspace_def)
  next
    case False
    then have "''PDFs'' \<in> set ?ns"
      by (intro resetNames_props(3)) (simp add: set_children)
    from deleteEach_removes[OF resetNames_props(1) ex this]
    show ?thesis unfolding loop by simp
  qed
  show "fs_lookup (resetWorkspace folderPath fs) (folderPath @ [''PDFs''] @ [x]) = None"
  proof (cases "fs_lookup fs (folderPath @ [''PDFs'']) = Some Dir")
    case True
    then have "''PDFs'' \<in> set ?ns"
      by (intro resetNames_props(3)) (simp add: set_children)
    from deleteEach_removes[OF resetNames_props(1) ex this] True
    show ?thesis unfolding loop by simp
  next
    case False
    have "fs_lookup fs ((folderPath @ [''PDFs'']) @ [x]) = None"
      by (rule wf_no_orphans[OF wf False]) simp
    then show ?thesis
      using removeFolderContents_only_removes[of folderPath _ fs "folderPath @ [''PDFs''] @ [x]"]
      by (auto simp: resetWorkspace_def)
  qed
qed

lemma mkdirs_skip:
  "(\<And>q. q \<in> set qs \<Longrightarrow> fs_lookup fs q = Some Dir) \<Longrightarrow> mkdirs (qs @ rest) fs = mkdirs rest fs"
  by (induction qs) simp_all

lemma tl_prefixes_nonempty: "q \<in> set (tl (prefixes xs)) \<Longrightarrow> prefix q xs \<and> q \<noteq> []"
  by (cases xs) (auto simp: in_set_prefixes)

lemma mkdirSync_new_child:
  assumes "\<And>q. prefix q folder \<Longrightarrow> q \<noteq> [] \<Longrightarrow> fs_lookup fs q = Some Dir"
    and "fs_lookup fs (folder @ [x]) = None"
  shows "mkdirSync_recursive (folder @ [x]) fs = Inr (fs_put (folder @ [x]) Dir fs)"
proof -
  have "tl (prefixes (folder @ [x])) = tl (prefixes folder) @ [folder @ [x]]"
    by (cases folder) simp_all
  moreover have "mkdirs (tl (prefixes folder) @ [folder @ [x]]) fs = mkdirs [folder @ [x]] fs"
    by (rule mkdirs_skip) (use assms(1) tl_prefixes_nonempty in blast)
  ultimately show ?thesis using assms(2) by (simp add: mkdirSync_recursive_def)
qed

lemma doListingWithFiles_populates:
  assumes wf: "wf_fs fs" and d: "fs_lookup fs folderPath = Some Dir"
    and nolist: "\<not> existsSync fs (folderPath @ [listFileName @ ''.json''])"
    and lst: "listing r = Some articles" and br: "browser_ok r" and ok: "\<forall>n. render_ok r n"
  shows "fs_lookup (doListingWithFiles folderPath listFileName r monitoringFn fs)
            (folderPath @ [listFileName @ ''.json'']) = Some (File (Snapshot articles))
       \<and> set (children (doListingWithFiles folderPath listFileName r monitoringFn fs)
                 (folderPath @ [''PDFs''])) = pdfNames (map number articles)"
proof -
  let ?list = "folderPath @ [listFileName @ ''.json'']"
  let ?home = "folderPath @ [''PDFs'']"
  define fsW where "fsW = resetWorkspace folderPath fs"
  define fs1 where "fs1 = fs_put ?list (File (Snapshot articles)) fsW"
  define fs2 where "fs2 = fs_put ?home Dir fs1"
  note rf = resetWorkspace_facts[OF wf d]
  have wd: "fs_lookup fsW folderPath = Some Dir" unfolding fsW_def by (rule rf(1))
  have wl: "fs_lookup fsW ?list = None"
    using removeFolderContents_only_removes[of folderPath _ fs ?list] nolist
    by (auto simp: fsW_def resetWorkspace_def existsSync_def)
  have w: "writeFile ?list (Snapshot articles) fsW = Inr fs1"
    unfolding fs1_def using wd wl by (intro writeFile_ok) simp_all
  have lo: "doListingOnly folderPath listFileName r fs = (Some articles, fs1)"
    using lst w by (simp add: doListingOnly_def getArticlesList_def fsW_def)
  have ne: "?home \<noteq> ?list" by (simp add: PDFs_not_json)
  have h1: "fs_lookup fs1 ?home = None"
    using rf(3) ne by (simp add: fs1_def fsW_def lookup_put)
  have anc: "fs_lookup fs1 q = Some Dir" if "prefix q folderPath" "q \<noteq> []" for q
  proof -
    have "fs_lookup fs q = Some Dir"
    proof (cases "q = folderPath")
      case True
      then show ?thesis using d by simp
    next
      case False
      then show ?thesis using wf_ancestors[OF wf _ that(1) that(2)] d by simp
    qed
    moreover have "q \<noteq> ?list" using that(1) by (auto dest: prefix_length_le)
    ultimately show ?thesis using rf(2)[OF that(1)] by (simp add: fs1_def fsW_def lookup_put)
  qed
  have mk: "mkdirSync_recursive ?home fs1 = Inr fs2"
    unfolding fs2_def by (rule mkdirSync_new_child[OF anc h1])
  have hd2: "fs_lookup fs2 ?home = Some Dir" by (simp add: fs2_def lookup_put)
  have in2: "fs_lookup fs2 (?home @ [x]) = None" for x
    using rf(4)[of x] by (simp add: fs2_def fs1_def fsW_def lookup_put)
  have nd2: "fs_lookup fs2 (?home @ [x]) \<noteq> Some Dir" for x using in2[of x] by simp
  have l2: "fs_lookup fs2 ?list = Some (File (Snapshot articles))"
    using ne by (simp add: fs2_def fs1_def lookup_put)
  have run: "doListingWithFiles folderPath listFileName r monitoringFn fs
       = renderEach r ?home (map number articles) fs2"
    using lo h1 mk br by (simp add: doListingWithFiles_def existsSync_def fetchArticles_def)
  have ok': "\<And>n. n \<in> set (map number articles) \<Longrightarrow> render_ok r n" using ok by simp
  have notin: "?list \<notin> (\<lambda>n. ?home @ [n @ ''.pdf'']) ` set (map number articles)"
    by auto
  have a: "fs_lookup (renderEach r ?home (map number articles) fs2) ?list = Some (File (Snapshot articles))"
    using renderEach_lookup[OF hd2 ok' nd2, of "map number articles" ?list] notin l2
    by (simp del: set_map)
  have "set (children fs2 ?home) = {}"
    unfolding set_children using in2 by simp
  then have b: "set (children (renderEach r ?home (map number articles) fs2) ?home)
      = pdfNames (map number articles)"
    using renderEach_children[OF hd2 ok' nd2, of "map number articles"] by simp
  show ?thesis unfolding run using a b by simp
qed

section \<open>The removal step of doChangesWithFiles\<close>

text \<open>
  A match of an absolute pattern has as many segments as the pattern, so the path the
  deletion loop looks up, \<open>folderPath\<close> joined with the match, is longer than any path
  directly inside \<open>folderPath/PDFs\<close> unless \<open>folderPath\<close> is the root.
\<close>

lemma glob_walk_length: "m \<in> set (glob_walk fs dir segs) \<Longrightarrow> length m = length segs"
  by (induction segs arbitrary: dir m) auto

lemma glob_abs_matches:
  assumes "d \<in> set (foldl (\<lambda>acc pattern. addAll (glob_sync fs folderPath pattern) acc) []
                       (filter truthy_pattern (map (\<lambda>n. Abs (folderPath @ [''PDFs''] @ [n @ ''.pdf''])) ns)))"
  shows "length (path_join folderPath d) = 2 * length folderPath + 2"
proof -
  have tp: "filter truthy_pattern (map (\<lambda>n. Abs (folderPath @ [''PDFs''] @ [n @ ''.pdf''])) ns)
            = map (\<lambda>n. Abs (folderPath @ [''PDFs''] @ [n @ ''.pdf''])) ns"
    by (induction ns) simp_all
  have "set (foldl (\<lambda>acc pattern. addAll (glob_sync fs folderPath pattern) acc) []
               (map (\<lambda>n. Abs (folderPath @ [''PDFs''] @ [n @ ''.pdf''])) ns))
        = (\<Union>p \<in> set (map (\<lambda>n. Abs (folderPath @ [''PDFs''] @ [n @ ''.pdf''])) ns).
             set (glob_sync fs folderPath p))"
    using foldl_addAll[of "[]" "glob_sync fs folderPath"] by simp
  then obtain n where "d \<in> set (glob_sync fs folderPath (Abs (folderPath @ [''PDFs''] @ [n @ ''.pdf''])))"
    using assms unfolding tp by auto
  then obtain m where "d = Abs m" "m \<in> set (glob_walk fs [] (folderPath @ [''PDFs''] @ [n @ ''.pdf'']))"
    by auto
  then show ?thesis using glob_walk_length[of m fs "[]"] by simp
qed

lemma removalStep_short_paths:
  assumes "folderPath \<noteq> []" and "length q \<le> length folderPath + 2"
  shows "fs_lookup (removalStep folderPath rep newerOnly fs) q = fs_lookup fs q"
proof (cases "removed (changes rep) @ updated (changes rep) = []")
  case True
  then show ?thesis by (simp add: removalStep_def)
next
  case False
  let ?pats = "PatArray (map (\<lambda>n. Abs (folderPath @ [''PDFs''] @ [n @ ''.pdf'']))
                 (removed (changes rep) @ updated (changes rep)))"
  have "fs_lookup (removeFolderContents folderPath ?pats fs) q = fs_lookup fs q"
  proof (cases "readdir fs folderPath")
    case (Inl e)
    then show ?thesis by (simp add: removeFolderContents_def)
  next
    case (Inr files)
    define dels where "dels = foldl (\<lambda>acc pattern. addAll (glob_sync fs folderPath pattern) acc) []
                       (filter truthy_pattern (map (\<lambda>n. Abs (folderPath @ [''PDFs''] @ [n @ ''.pdf'']))
                          (removed (changes rep) @ updated (changes rep))))"
    have fd: "filesToDelete fs folderPath ?pats files = Inr dels"
      using False by (simp add: filesToDelete_def dels_def)
    have "fs_lookup (deleteEach folderPath dels fs) q = fs_lookup fs q"
    proof (rule deleteEach_keeps)
      fix d assume d: "d \<in> set dels"
      have "length (path_join folderPath d) = 2 * length folderPath + 2"
        using d unfolding dels_def by (rule glob_abs_matches)
      moreover have "length folderPath > 0" using assms(1) by simp
      ultimately have "length (path_join folderPath d) > length q" using assms(2) by linarith
      then show "\<not> prefix (path_join folderPath d) q" by (auto dest: prefix_length_le)
    qed
    then show ?thesis using Inr fd by (simp add: removeFolderContents_def)
  qed
  then show ?thesis by (simp add: removalStep_def)
qed

section \<open>The reset that is not awaited\<close>


lemma renderEach_Cons_single:
  "renderEach r d (n # ns) fs = renderEach r d ns (renderEach r d [n] fs)"
  by (simp split: sum.splits)

lemma resetStep_skipped:
  "0 < k \<Longrightarrow> st = Pending \<or> st = Finished \<Longrightarrow>
   resetStep d (PatFunction k) st fs = (Finished, fs)"
  by (auto simp add: resetStep_def filesToDelete_def split: sum.splits)

lemma interleave_skipped:
  "0 < k \<Longrightarrow> st = Pending \<or> st = Finished \<Longrightarrow>
   interleave r d (PatFunction k) ts st ns fs = renderEach r d ns fs"
proof (induction ts arbitrary: st ns fs)
  case Nil
  then show ?case
    by (auto simp add: finishReset_def removeFolderContents_def filesToDelete_def split: sum.splits)
next
  case (Cons t ts)
  show ?case
  proof (cases t)
    case ResetTurn
    then show ?thesis
      using Cons.prems resetStep_skipped[OF Cons.prems, of d fs] Cons.IH[of Finished ns fs]
      by simp
  next
    case RenderTurn
    then show ?thesis
    proof (cases ns)
      case Nil
      then show ?thesis using RenderTurn Cons.IH[OF Cons.prems, of "[]" fs] by simp
    next
      case (Cons n ns')
      then show ?thesis
        using RenderTurn Cons.IH[OF Cons.prems, of ns' "renderEach r d [n] fs"]
          renderEach_Cons_single[of r d n ns' fs] by simp
    qed
  qed
qed














section \<open>Claims about the session lock\<close>

text \<open>
  \<^bold>\<open>C10, as stated, fails.\<close> \<open>closeSession\<close> tests the lock path with
  \<open>existsSync\<close>, which also holds for a directory, and then calls \<open>unlinkSync\<close>,
  which raises on a directory. In a folder where the lock path is a directory the call
  throws and the lock path is still there afterwards.
\<close>

theorem closeSession_directory_counterexample:
  "fs_lookup exFsLockDir (exFolder @ [LOCK_FILE_NAME]) = Some Dir
   \<and> closeSession exFolder exFsLockDir = Inl EISDIR
   \<and> existsSync exFsLockDir (exFolder @ [LOCK_FILE_NAME])"
  by (simp add: closeSession_def existsSync_def unlinkSync_def fs_lookup_def exFsLockDir_def
        exFolder_def LOCK_FILE_NAME_def)

text \<open>
  \<^bold>\<open>C10, amended.\<close> For every target folder whose lock path does not hold a
  directory (\<open>openSession\<close> only ever writes a file there), \<open>closeSession\<close> is
  idempotent. Whenever no lock exists, the call raises nothing and leaves the file
  system as it is. In every case the call returns, the lock is absent afterwards, a
  second call returns the very same state, and no other path is touched.
\<close>

theorem closeSession_idempotent:
  assumes "fs_lookup fs (targetFolder @ [LOCK_FILE_NAME]) \<noteq> Some Dir"
  shows "(\<not> existsSync fs (targetFolder @ [LOCK_FILE_NAME]) \<longrightarrow> closeSession targetFolder fs = Inr fs)
       \<and> (\<exists>fs'. closeSession targetFolder fs = Inr fs'
              \<and> \<not> existsSync fs' (targetFolder @ [LOCK_FILE_NAME])
              \<and> closeSession targetFolder fs' = Inr fs'
              \<and> (\<forall>p. p \<noteq> targetFolder @ [LOCK_FILE_NAME] \<longrightarrow> fs_lookup fs' p = fs_lookup fs p))"
proof (cases "fs_lookup fs (targetFolder @ [LOCK_FILE_NAME])")
  case None
  then show ?thesis by (simp add: closeSession_def existsSync_def)
next
  case (Some n)
  then obtain c where c: "fs_lookup fs (targetFolder @ [LOCK_FILE_NAME]) = Some (File c)"
    using assms by (cases n) simp_all
  have 1: "closeSession targetFolder fs = Inr (fs_remove (targetFolder @ [LOCK_FILE_NAME]) fs)"
    using c by (simp add: closeSession_def existsSync_def unlinkSync_def)
  have 2: "\<not> existsSync (fs_remove (targetFolder @ [LOCK_FILE_NAME]) fs) (targetFolder @ [LOCK_FILE_NAME])"
    by (simp add: existsSync_def lookup_remove)
  have 3: "closeSession targetFolder (fs_remove (targetFolder @ [LOCK_FILE_NAME]) fs)
             = Inr (fs_remove (targetFolder @ [LOCK_FILE_NAME]) fs)"
    using 2 by (simp add: closeSession_def)
  show ?thesis using c 1 2 3 by (simp add: existsSync_def lookup_remove)
qed

text \<open>Opening a session in the example folder and closing it twice.\<close>

theorem closeSession_idempotent_witness:
  "(\<exists>fs1. openSession exFolder ''uuid-1'' exFs = Inr fs1
      \<and> existsSync fs1 (exFolder @ [LOCK_FILE_NAME])
      \<and> (\<exists>fs2. closeSession exFolder fs1 = Inr fs2
            \<and> \<not> existsSync fs2 (exFolder @ [LOCK_FILE_NAME])
            \<and> closeSession exFolder fs2 = Inr fs2))
   \<and> closeSession exFolder exFs = Inr exFs"
proof -
  define fs1 where "fs1 = fs_put (exFolder @ [LOCK_FILE_NAME]) (File (Other ''uuid-1'')) exFs"
  have o: "openSession exFolder ''uuid-1'' exFs = Inr fs1"
    by (simp add: fs1_def openSession_def existsSync_def writeFile_def fs_lookup_def exFs_def
        exFolder_def LOCK_FILE_NAME_def)
  have l: "fs_lookup fs1 (exFolder @ [LOCK_FILE_NAME]) = Some (File (Other ''uuid-1''))"
    by (simp add: fs1_def lookup_put)
  have h1: "fs_lookup fs1 (exFolder @ [LOCK_FILE_NAME]) \<noteq> Some Dir" using l by simp
  have h0: "fs_lookup exFs (exFolder @ [LOCK_FILE_NAME]) \<noteq> Some Dir"
    by (simp add: fs_lookup_def exFs_def exFolder_def LOCK_FILE_NAME_def)
  have n0: "\<not> existsSync exFs (exFolder @ [LOCK_FILE_NAME])"
    by (simp add: existsSync_def fs_lookup_def exFs_def exFolder_def LOCK_FILE_NAME_def)
  from closeSession_idempotent[OF h1] obtain fs2 where
    "closeSession exFolder fs1 = Inr fs2" "\<not> existsSync fs2 (exFolder @ [LOCK_FILE_NAME])"
    "closeSession exFolder fs2 = Inr fs2" by blast
  moreover have "closeSession exFolder exFs = Inr exFs"
    using closeSession_idempotent[OF h0] n0 by simp
  ultimately show ?thesis using o l by (auto simp: existsSync_def)
qed

section \<open>Claims about the operations\<close>

text \<open>
  \<^bold>\<open>C7, as stated, fails.\<close> \<open>doListingWithChanges\<close> renames the list file to \<open>.old\<close>
  before it requests the new list. When the request fails nothing is written, so after
  the run no file is left at the original path: loading it there raises \<open>ENOENT\<close>.
\<close>

theorem fetch_failure_moves_snapshot_counterexample:
  "listing exRemoteDown = None
   \<and> readList exFs (exFolder @ [''file_list.json'']) = Inr exOld
   \<and> readList (snd (doListingWithChanges exFolder ''file_list'' ''file_changes'' exRemoteDown ''t'' exFs))
        (exFolder @ [''file_list.json'']) = Inl ENOENT"
proof -
  have l: "fs_lookup exFs (exFolder @ [''file_list'' @ ''.json'']) = Some (File (Snapshot exOld))"
    by (simp add: fs_lookup_def exFs_def exFolder_def)
  have o: "fs_lookup exFs (exFolder @ [''file_list'' @ ''.json'' @ ''.old'']) \<noteq> Some Dir"
    by (simp add: fs_lookup_def exFs_def exFolder_def)
  have ne: "exFolder @ [''file_list.json''] \<noteq> exFolder @ [''file_list.json.old'']" by simp
  have rn: "renameSync (exFolder @ [''file_list.json'']) (exFolder @ [''file_list.json.old'']) exFs
     = Inr (fs_put (exFolder @ [''file_list.json.old'']) (File (Snapshot exOld))
              (fs_remove (exFolder @ [''file_list.json'']) exFs))"
    using l o by (simp add: renameSync_def split: option.splits node.splits)
  have "snd (doListingWithChanges exFolder ''file_list'' ''file_changes'' exRemoteDown ''t'' exFs)
     = fs_put (exFolder @ [''file_list.json.old'']) (File (Snapshot exOld))
              (fs_remove (exFolder @ [''file_list.json'']) exFs)"
    using l rn ne
    by (simp add: doListingWithChanges_def existsSync_def getArticlesList_def exRemoteDown_def
          getKBChanges_def readList_def lookup_put lookup_remove)
  then show ?thesis
    using l ne by (simp add: readList_def lookup_put lookup_remove exRemoteDown_def)
qed

text \<open>
  \<^bold>\<open>C7, amended.\<close> For every change-tracking run on an existing list file in which the
  listing request fails: \<open>doListingWithChanges\<close> returns \<open>null\<close>, and
  \<open>doChangesWithFiles\<close> ends in the same state, without deleting or rendering anything;
  the earlier list is intact and loadable, but at the path with \<open>.old\<close> appended, and
  nothing is left at the original path; every other path is as before. (The \<open>.old\<close>
  path is assumed not to hold a directory.)
\<close>

theorem fetch_failure_moves_snapshot:
  assumes l: "fs_lookup fs (folderPath @ [listFileName @ ''.json'']) = Some (File (Snapshot old))"
    and o: "fs_lookup fs (folderPath @ [listFileName @ ''.json'' @ ''.old'']) \<noteq> Some Dir"
    and f: "listing r = None"
  shows "\<exists>fs'. doListingWithChanges folderPath listFileName changesFileName r now fs = (None, fs')
        \<and> doChangesWithFiles folderPath listFileName changesFileName r monitoringFn newerOnly now fs = fs'
        \<and> fs_lookup fs' (folderPath @ [listFileName @ ''.json'']) = None
        \<and> readList fs' (folderPath @ [listFileName @ ''.json'' @ ''.old'']) = Inr old
        \<and> (\<forall>p. p \<noteq> folderPath @ [listFileName @ ''.json'']
               \<and> p \<noteq> folderPath @ [listFileName @ ''.json'' @ ''.old'']
               \<longrightarrow> fs_lookup fs' p = fs_lookup fs p)"
proof -
  let ?list = "folderPath @ [listFileName @ ''.json'']"
  let ?old = "folderPath @ [listFileName @ ''.json'' @ ''.old'']"
  define fs1 where "fs1 = fs_put ?old (File (Snapshot old)) (fs_remove ?list fs)"
  have ne: "?list \<noteq> ?old" by simp
  have ex: "existsSync fs ?list" using l by (simp add: existsSync_def)
  have rn: "renameSync ?list ?old fs = Inr fs1"
    using l o by (simp add: renameSync_def fs1_def split: option.splits node.splits)
  have l1: "fs_lookup fs1 ?list = None"
    using ne by (simp add: fs1_def lookup_put lookup_remove)
  have o1: "fs_lookup fs1 ?old = Some (File (Snapshot old))"
    by (simp add: fs1_def lookup_put)
  have ga: "getArticlesList r ?list fs1 = (None, fs1)"
    using f by (simp add: getArticlesList_def)
  have gk: "getKBChanges ?list ?old (folderPath @ [changesFileName @ ''.json'']) now fs1 = (None, fs1)"
    using l1 by (simp add: getKBChanges_def readList_def)
  have dl: "doListingWithChanges folderPath listFileName changesFileName r now fs = (None, fs1)"
    using ex rn ga gk by (simp add: doListingWithChanges_def)
  have dc: "doChangesWithFiles folderPath listFileName changesFileName r monitoringFn newerOnly now fs = fs1"
    using ex dl by (simp add: doChangesWithFiles_def)
  have rl: "readList fs1 ?old = Inr old"
    using o1 by (simp add: readList_def)
  have fr: "fs_lookup fs1 p = fs_lookup fs p" if "p \<noteq> ?list" "p \<noteq> ?old" for p
    using that by (simp add: fs1_def lookup_put lookup_remove)
  show ?thesis using dl dc l1 rl fr by blast
qed

theorem fetch_failure_moves_snapshot_witness:
  "fs_lookup exFs (exFolder @ [''file_list.json'']) = Some (File (Snapshot exOld))
   \<and> listing exRemoteDown = None
   \<and> (\<exists>fs'. doChangesWithFiles exFolder ''file_list'' ''file_changes'' exRemoteDown (Some 1) False ''t'' exFs = fs'
          \<and> fs_lookup fs' (exFolder @ [''file_list.json'']) = None
          \<and> readList fs' (exFolder @ [''file_list.json.old'']) = Inr exOld
          \<and> fs_lookup fs' (exFolder @ [''PDFs'', ''KB0002.pdf'']) = Some (File (Pdf ''KB0002'')))"
proof -
  have l: "fs_lookup exFs (exFolder @ [''file_list'' @ ''.json'']) = Some (File (Snapshot exOld))"
    by (simp add: fs_lookup_def exFs_def exFolder_def)
  have o: "fs_lookup exFs (exFolder @ [''file_list'' @ ''.json'' @ ''.old'']) \<noteq> Some Dir"
    by (simp add: fs_lookup_def exFs_def exFolder_def)
  have f: "listing exRemoteDown = None" by (simp add: exRemoteDown_def)
  have k: "fs_lookup exFs (exFolder @ [''PDFs'', ''KB0002.pdf'']) = Some (File (Pdf ''KB0002''))"
    by (simp add: fs_lookup_def exFs_def exFolder_def)
  from fetch_failure_moves_snapshot[OF l o f, of "''file_changes''" "''t''" "Some 1" False]
  obtain fs' where
    a: "doChangesWithFiles exFolder ''file_list'' ''file_changes'' exRemoteDown (Some 1) False ''t'' exFs = fs'"
    and b: "fs_lookup fs' (exFolder @ [''file_list'' @ ''.json'']) = None"
    and c: "readList fs' (exFolder @ [''file_list'' @ ''.json'' @ ''.old'']) = Inr exOld"
    and d: "\<forall>p. p \<noteq> exFolder @ [''file_list'' @ ''.json'']
               \<and> p \<noteq> exFolder @ [''file_list'' @ ''.json'' @ ''.old'']
               \<longrightarrow> fs_lookup fs' p = fs_lookup exFs p"
    by blast
  have "fs_lookup fs' (exFolder @ [''PDFs'', ''KB0002.pdf'']) = fs_lookup exFs (exFolder @ [''PDFs'', ''KB0002.pdf''])"
    using d[rule_format, of "exFolder @ [''PDFs'', ''KB0002.pdf'']"] by simp
  then show ?thesis using a b c k l f by simp
qed

text \<open>
  \<^bold>\<open>C6.\<close> Without a list file at the start, \<open>doListingWithChanges\<close> returns \<open>null\<close> and
  leaves the file system as it is (no file is deleted), and \<open>doChangesWithFiles\<close> does
  what \<open>doListingWithFiles\<close> does on the same input and nothing more. That is the full
  population: on a well-formed file system in which \<open>folderPath\<close> is a directory, when
  the listing request, the browser and every rendering succeed, the list file holds the
  listed articles afterwards and the \<open>PDFs\<close> folder holds exactly one file per listed
  number.
\<close>

theorem first_run_fallback:
  assumes "\<not> existsSync fs (folderPath @ [listFileName @ ''.json''])"
  shows "doListingWithChanges folderPath listFileName changesFileName r now fs = (None, fs)
     \<and> doChangesWithFiles folderPath listFileName changesFileName r monitoringFn newerOnly now fs
         = doListingWithFiles folderPath listFileName r monitoringFn fs
     \<and> (wf_fs fs \<and> fs_lookup fs folderPath = Some Dir \<and> listing r = Some articles
          \<and> browser_ok r \<and> (\<forall>n. render_ok r n) \<longrightarrow>
        fs_lookup (doChangesWithFiles folderPath listFileName changesFileName r monitoringFn newerOnly now fs)
            (folderPath @ [listFileName @ ''.json'']) = Some (File (Snapshot articles))
        \<and> set (children (doChangesWithFiles folderPath listFileName changesFileName r monitoringFn
                            newerOnly now fs) (folderPath @ [''PDFs'']))
           = pdfNames (map number articles))"
proof -
  have e: "doChangesWithFiles folderPath listFileName changesFileName r monitoringFn newerOnly now fs
         = doListingWithFiles folderPath listFileName r monitoringFn fs"
    using assms by (simp add: doChangesWithFiles_def)
  have n: "doListingWithChanges folderPath listFileName changesFileName r now fs = (None, fs)"
    using assms by (simp add: doListingWithChanges_def)
  show ?thesis
    unfolding e using n doListingWithFiles_populates[OF _ _ assms, of r articles monitoringFn]
    by simp
qed

text \<open>A first run on the fresh example folder.\<close>

theorem first_run_fallback_witness:
  "\<not> existsSync exFsFresh (exFolder @ [''file_list'' @ ''.json''])
   \<and> wf_fs exFsFresh \<and> fs_lookup exFsFresh exFolder = Some Dir
   \<and> listing exRemote = Some exNew \<and> browser_ok exRemote
   \<and> doListingWithChanges exFolder ''file_list'' ''file_changes'' exRemote ''t'' exFsFresh = (None, exFsFresh)
   \<and> fs_lookup (doChangesWithFiles exFolder ''file_list'' ''file_changes'' exRemote (Some 1) False ''t'' exFsFresh)
        (exFolder @ [''file_list.json'']) = Some (File (Snapshot exNew))
   \<and> set (children (doChangesWithFiles exFolder ''file_list'' ''file_changes'' exRemote (Some 1) False ''t'' exFsFresh)
             (exFolder @ [''PDFs''])) = pdfNames [''KB0001'', ''KB0003'']"
proof -
  have nl: "\<not> existsSync exFsFresh (exFolder @ [''file_list'' @ ''.json''])"
    by (simp add: existsSync_def fs_lookup_def exFsFresh_def exFolder_def)
  have wf: "wf_fs exFsFresh"
    by (simp add: wf_fs_def fs_lookup_def exFsFresh_def)
  have d: "fs_lookup exFsFresh exFolder = Some Dir"
    by (simp add: fs_lookup_def exFsFresh_def exFolder_def)
  have l: "listing exRemote = Some exNew" and b: "browser_ok exRemote"
    and k: "\<forall>n. render_ok exRemote n"
    by (simp_all add: exRemote_def)
  have nums: "map number exNew = [''KB0001'', ''KB0003'']"
    by (simp add: exNew_def art_def)
  note t = first_run_fallback[OF nl, of "''file_changes''" exRemote "''t''" "Some 1" False exNew]
  have pop: "fs_lookup (doChangesWithFiles exFolder ''file_list'' ''file_changes'' exRemote (Some 1) False ''t'' exFsFresh)
            (exFolder @ [''file_list'' @ ''.json'']) = Some (File (Snapshot exNew))
        \<and> set (children (doChangesWithFiles exFolder ''file_list'' ''file_changes'' exRemote (Some 1)
                            False ''t'' exFsFresh) (exFolder @ [''PDFs'']))
           = pdfNames (map number exNew)"
    using t[THEN conjunct2, THEN conjunct2] wf d l b k by blast
  show ?thesis
    using nl wf d l b t[THEN conjunct1] pop unfolding nums by simp
qed

text \<open>
  \<^bold>\<open>C2: the code does not do what the claim says.\<close> The removal patterns start with
  \<open>folderPath\<close> and are absolute; \<open>glob.sync\<close> reports their matches as absolute paths;
  \<open>removeFolderContents\<close> joins each match to \<open>folderPath\<close> once more, \<open>fsp.lstat\<close>
  raises on the doubled path and the function's \<open>catch\<close> ends the loop. In the
  example run (folder \<open>/data/out\<close>, KB0002 removed, KB0001 updated) the removal step
  returns the file system unchanged: both files are still there before rendering
  starts.
\<close>

theorem removal_leaves_files_in_place:
  "(case doListingWithChanges exFolder ''file_list'' ''file_changes'' exRemote ''t'' exFs of
      (Some rep, fs1) \<Rightarrow>
          removed (changes rep) = [''KB0002''] \<and> updated (changes rep) = [''KB0001'']
        \<and> fs_lookup fs1 (exFolder @ [''PDFs'', ''KB0002.pdf'']) = Some (File (Pdf ''KB0002''))
        \<and> fs_lookup (removalStep exFolder rep False fs1) (exFolder @ [''PDFs'', ''KB0002.pdf''])
            = Some (File (Pdf ''KB0002''))
        \<and> fs_lookup (removalStep exFolder rep False fs1) (exFolder @ [''PDFs'', ''KB0001.pdf''])
            = Some (File (Pdf ''KB0001''))
        \<and> removalStep exFolder rep False fs1 = fs1
    | (None, fs1) \<Rightarrow> False)"
  by code_simp

text \<open>
  \<^bold>\<open>C1: the code does not do what the claim says\<close>, for the same reason. The folder
  matches the old list before the run; after a full run against the new list (KB0001
  and KB0003) it still holds \<open>KB0002.pdf\<close>.
\<close>

theorem full_run_keeps_removed_article:
  "set (children exFs (exFolder @ [''PDFs''])) = pdfNames (map number exOld)
   \<and> listing exRemote = Some exNew
   \<and> set (children (doChangesWithFiles exFolder ''file_list'' ''file_changes'' exRemote (Some 1) False ''t'' exFs)
              (exFolder @ [''PDFs'']))
       = pdfNames [''KB0001'', ''KB0002'', ''KB0003'']
   \<and> set (children (doChangesWithFiles exFolder ''file_list'' ''file_changes'' exRemote (Some 1) False ''t'' exFs)
              (exFolder @ [''PDFs'']))
       \<noteq> pdfNames (map number exNew)"
  by code_simp




section \<open>Further properties of the reconciliation\<close>

text \<open>
  For every folder other than the root, the removal step of \<open>doChangesWithFiles\<close>
  leaves every file directly inside \<open>folderPath/PDFs\<close> as it is, whatever the report
  and the flag.
\<close>

theorem removalStep_never_reaches_PDFs:
  assumes "folderPath \<noteq> []"
  shows "fs_lookup (removalStep folderPath rep newerOnly fs) (folderPath @ [''PDFs'', x])
           = fs_lookup fs (folderPath @ [''PDFs'', x])
       \<and> set (children (removalStep folderPath rep newerOnly fs) (folderPath @ [''PDFs'']))
           = set (children fs (folderPath @ [''PDFs'']))"
proof -
  have a: "fs_lookup (removalStep folderPath rep newerOnly fs) (folderPath @ [''PDFs'', y])
           = fs_lookup fs (folderPath @ [''PDFs'', y])" for y
    by (rule removalStep_short_paths[OF assms]) simp
  have "fs_lookup (removalStep folderPath rep newerOnly fs) ((folderPath @ [''PDFs'']) @ [y])
           = fs_lookup fs ((folderPath @ [''PDFs'']) @ [y])" for y
    using a[of y] by simp
  then have "set (children (removalStep folderPath rep newerOnly fs) (folderPath @ [''PDFs'']))
           = set (children fs (folderPath @ [''PDFs'']))"
    unfolding set_children by simp
  then show ?thesis using a[of x] by simp
qed

theorem removalStep_never_reaches_PDFs_witness:
  "exFolder \<noteq> []
   \<and> fs_lookup (removalStep exFolder
         \<lparr>last_updated_on = ''t'',
          changes = \<lparr>added = [''KB0003''], updated = [''KB0001''], removed = [''KB0002'']\<rparr>\<rparr> False exFs)
        (exFolder @ [''PDFs'', ''KB0002.pdf'']) = Some (File (Pdf ''KB0002''))"
proof -
  have ne: "exFolder \<noteq> []" by (simp add: exFolder_def)
  have k: "fs_lookup exFs (exFolder @ [''PDFs'', ''KB0002.pdf'']) = Some (File (Pdf ''KB0002''))"
    by (simp add: fs_lookup_def exFs_def exFolder_def)
  show ?thesis
    using removalStep_never_reaches_PDFs[OF ne, THEN conjunct1, of _ False exFs "''KB0002.pdf''"] ne k
    by simp
qed

text \<open>
  Hence a full run (flag unset) that produces a report, with every rendering
  succeeding, only adds files: the folder holds afterwards what it held before plus
  one file per number in \<open>updated\<close> or \<open>added\<close>.
\<close>

theorem full_run_only_adds:
  assumes ne: "folderPath \<noteq> []"
    and snap: "fs_lookup fs (folderPath @ [listFileName @ ''.json'']) = Some (File c)"
    and rep: "doListingWithChanges folderPath listFileName changesFileName r now fs = (Some rep, fs1)"
    and pdfs: "fs_lookup fs (folderPath @ [''PDFs'']) = Some Dir"
    and files: "\<forall>x. fs_lookup fs (folderPath @ [''PDFs'', x]) \<noteq> Some Dir"
    and browser: "browser_ok r"
    and renders: "\<forall>n. render_ok r n"
  shows "set (children (doChangesWithFiles folderPath listFileName changesFileName r
                          monitoringFn False now fs) (folderPath @ [''PDFs'']))
         = set (children fs (folderPath @ [''PDFs'']))
             \<union> pdfNames (updated (changes rep) @ added (changes rep))"
proof -
  let ?home = "folderPath @ [''PDFs'']"
  let ?nums = "updated (changes rep) @ added (changes rep)"
  let ?run = "doChangesWithFiles folderPath listFileName changesFileName r monitoringFn False now fs"
  define fs2 where "fs2 = removalStep folderPath rep False fs1"
  have ex: "existsSync fs (folderPath @ [listFileName @ ''.json''])"
    using snap by (simp add: existsSync_def)
  have run: "?run = downloadStep folderPath rep False r monitoringFn fs2"
    using ex rep by (simp add: doChangesWithFiles_def fs2_def)
  have h2: "fs_lookup fs2 ?home = Some Dir"
    unfolding fs2_def
    using removalStep_short_paths[OF ne, of ?home rep False fs1]
      doListingWithChanges_keeps_PDFs(1)[OF snap rep] pdfs by simp
  have c2: "fs_lookup fs2 (?home @ [x]) = fs_lookup fs (?home @ [x])" for x
    unfolding fs2_def
    using removalStep_short_paths[OF ne, of "?home @ [x]" rep False fs1]
      doListingWithChanges_keeps_PDFs(2)[OF snap rep, of x] by simp
  have nd2: "fs_lookup fs2 (?home @ [x]) \<noteq> Some Dir" for x
    using c2[of x] files by simp
  have ch2: "set (children fs2 ?home) = set (children fs ?home)"
    unfolding set_children c2 ..
  show ?thesis
  proof (cases "?nums = []")
    case True
    have "?run = fs2" unfolding run using True by (simp add: downloadStep_def)
    then show ?thesis using True ch2 by (simp add: pdfNames_def)
  next
    case False
    have "?run = renderEach r ?home ?nums fs2"
      unfolding run using False browser by (simp add: downloadStep_def fetchArticles_def)
    then show ?thesis
      using renderEach_children[OF h2 _ nd2, of ?nums r] renders ch2 by simp
  qed
qed

theorem full_run_only_adds_witness:
  "exFolder \<noteq> [] \<and> browser_ok exRemote
   \<and> set (children (doChangesWithFiles exFolder ''file_list'' ''file_changes'' exRemote
                          (Some 1) False ''t'' exFs) (exFolder @ [''PDFs'']))
         = set (children exFs (exFolder @ [''PDFs''])) \<union> pdfNames [''KB0001'', ''KB0003'']"
proof -
  have ne: "exFolder \<noteq> []" by (simp add: exFolder_def)
  have snap: "fs_lookup exFs (exFolder @ [''file_list'' @ ''.json'']) = Some (File (Snapshot exOld))"
    by (simp add: fs_lookup_def exFs_def exFolder_def)
  have pdfs: "fs_lookup exFs (exFolder @ [''PDFs'']) = Some Dir"
    by (simp add: fs_lookup_def exFs_def exFolder_def)
  have files: "\<forall>x. fs_lookup exFs (exFolder @ [''PDFs'', x]) \<noteq> Some Dir"
    by (simp add: fs_lookup_def exFs_def exFolder_def)
  have browser: "browser_ok exRemote" by (simp add: exRemote_def)
  have renders: "\<forall>n. render_ok exRemote n" by (simp add: exRemote_def)
  show ?thesis
    using full_run_only_adds[OF ne snap exRun_report pdfs files browser renders, of "Some 1"]
      ne browser by simp
qed

text \<open>
  A newer-only run with a monitoring callback that declares a parameter (as the one
  \<open>index.js\<close> passes) resets nothing either: \<open>removeFolderContents(targetDir, $m)\<close>
  raises a \<open>TypeError\<close> on \<open>patterns.filter\<close>, which its own \<open>catch\<close> swallows,
  whenever the reset gets its turn.
\<close>

theorem newer_only_reset_skipped:
  assumes arity: "declared_params monitoringFn > 0"
    and snap: "fs_lookup fs (folderPath @ [listFileName @ ''.json'']) = Some (File c)"
    and rep: "doListingWithChanges folderPath listFileName changesFileName r now fs = (Some rep, fs1)"
    and pdfs: "fs_lookup fs (folderPath @ [''PDFs'']) = Some Dir"
    and files: "\<forall>x. fs_lookup fs (folderPath @ [''PDFs'', x]) \<noteq> Some Dir"
    and browser: "browser_ok r"
    and renders: "\<forall>n. render_ok r n"
  shows "set (children (doChangesWithFiles folderPath listFileName changesFileName r
                          monitoringFn True now fs) (folderPath @ [''PDFs'']))
         = set (children fs (folderPath @ [''PDFs'']))
             \<union> pdfNames (updated (changes rep) @ added (changes rep))"
proof -
  let ?home = "folderPath @ [''PDFs'']"
  let ?nums = "updated (changes rep) @ added (changes rep)"
  let ?run = "doChangesWithFiles folderPath listFileName changesFileName r monitoringFn True now fs"
  have ex: "existsSync fs (folderPath @ [listFileName @ ''.json''])"
    using snap by (simp add: existsSync_def)
  have run: "?run = downloadStep folderPath rep True r monitoringFn fs1"
    using ex rep by (simp add: doChangesWithFiles_def removalStep_def)
  have noreset: "interleave r ?home (PatFunction (declared_params monitoringFn)) (turns r) Pending
                    ?nums fs1 = renderEach r ?home ?nums fs1"
    by (rule interleave_skipped[OF arity]) simp
  have h1: "fs_lookup fs1 ?home = Some Dir"
    using doListingWithChanges_keeps_PDFs(1)[OF snap rep] pdfs by simp
  have c1: "fs_lookup fs1 (?home @ [x]) = fs_lookup fs (?home @ [x])" for x
    using doListingWithChanges_keeps_PDFs(2)[OF snap rep, of x] by simp
  have nd1: "fs_lookup fs1 (?home @ [x]) \<noteq> Some Dir" for x
    using c1[of x] files by simp
  have ch1: "set (children fs1 ?home) = set (children fs ?home)"
    unfolding set_children c1 ..
  show ?thesis
  proof (cases "?nums = []")
    case True
    have "?run = fs1" unfolding run using True by (simp add: downloadStep_def)
    then show ?thesis using True ch1 by (simp add: pdfNames_def)
  next
    case False
    have "?run = renderEach r ?home ?nums fs1"
      unfolding run using False browser noreset by (simp add: downloadStep_def fetchArticles_def)
    then show ?thesis
      using renderEach_children[OF h1 _ nd1, of ?nums r] renders ch1 by simp
  qed
qed

theorem newer_only_reset_skipped_witness:
  "declared_params (Some 1) > 0 \<and> browser_ok exRemote
   \<and> set (children (doChangesWithFiles exFolder ''file_list'' ''file_changes'' exRemote
                          (Some 1) True ''t'' exFs) (exFolder @ [''PDFs'']))
         = set (children exFs (exFolder @ [''PDFs''])) \<union> pdfNames [''KB0001'', ''KB0003'']"
proof -
  have ar: "declared_params (Some 1) > 0" by (simp add: declared_params_def)
  have snap: "fs_lookup exFs (exFolder @ [''file_list'' @ ''.json'']) = Some (File (Snapshot exOld))"
    by (simp add: fs_lookup_def exFs_def exFolder_def)
  have pdfs: "fs_lookup exFs (exFolder @ [''PDFs'']) = Some Dir"
    by (simp add: fs_lookup_def exFs_def exFolder_def)
  have files: "\<forall>x. fs_lookup exFs (exFolder @ [''PDFs'', x]) \<noteq> Some Dir"
    by (simp add: fs_lookup_def exFs_def exFolder_def)
  have browser: "browser_ok exRemote" by (simp add: exRemote_def)
  have renders: "\<forall>n. render_ok exRemote n" by (simp add: exRemote_def)
  show ?thesis
    using newer_only_reset_skipped[OF ar snap exRun_report pdfs files browser renders]
      ar browser by simp
qed

text \<open>
  Why the amended containment is not an equality in every order of turns: when the
  updated article \<open>KB0001\<close> is printed before the reset has read the folder, the reset
  deletes the fresh file together with the old ones, and only \<open>KB0003.pdf\<close> is left.
\<close>

theorem reset_may_delete_fresh_file:
  "turns exRemoteRace = [RenderTurn]
   \<and> set (children (doChangesWithFiles exFolder ''file_list'' ''file_changes'' exRemoteRace
                       None True ''t'' exFs) (exFolder @ [''PDFs''])) = pdfNames [''KB0003'']"
  by code_simp
section \<open>Claims about the configuration\<close>

lemma call_mergeData_four: "call_mergeData [a, b, c, d] = (a ++ b) ++ c"
  by (simp add: call_mergeData_def actual_def mergeData_def)

lemma profileData_selected:
  "profileData configFile args =
     (case args ''config_profile'' of
        Some (JStr name) \<Rightarrow> if name = [] then Map.empty else orEmpty (getConfigData configFile name)
      | _ \<Rightarrow> Map.empty)"
  by (simp add: profileData_def split: option.splits jsval.splits)

lemma profileData_depends:
  "args' ''config_profile'' = args ''config_profile'' \<Longrightarrow>
   profileData configFile args' = profileData configFile args"
  by (simp add: profileData_def)

text \<open>
  \<^bold>\<open>C8.\<close> For every call of \<open>mainExec\<close> that goes past the \<open>--help\<close> and
  \<open>--init_config\<close> branches, the configuration is the built-in defaults overridden by
  the \<open>default\<close> profile overridden by the profile the command line selects (none when
  \<open>config_profile\<close> is missing or empty), and nothing else: the parsed command line is
  the fourth argument of a call to the three-parameter \<open>mergeData\<close> and is dropped.
  The mandatory-argument validation fails or passes on this configuration alone, the
  run proceeds with exactly this configuration, and the operation that is called and
  the values it receives are read from it. A command line that selects the same
  profile yields the same configuration, the same outcome of the validation and the
  same operation, whatever else it gives.
\<close>

theorem mainExec_drops_command_line:
  assumes nh: "\<not> truthy (args ''help'')" and ni: "\<not> truthy (args ''init_config'')"
  shows
   "(let selected = (case args ''config_profile'' of
                       Some (JStr name) \<Rightarrow>
                         if name = [] then Map.empty else orEmpty (getConfigData configFile name)
                     | _ \<Rightarrow> Map.empty);
         effective = (appArgDefaults inp ++ orEmpty (getConfigData configFile (str ''default'')))
                       ++ selected;
         invalid = ((\<exists>a \<in> set (appArgs inp). mandatory a \<and> \<not> truthy (effective (argName a)))
                    \<or> \<not> truthy (effective ''output_dir''))
     in finalInputData inp configFile args = effective
      \<and> mainExec_config inp configFile (Some args) = (if invalid then Exit 2 else Proceed effective)
      \<and> mainExec_dispatch inp configFile (Some args) folderReady =
          (if invalid \<or> \<not> folderReady (effective ''output_dir'') then Inl 2
           else case selectOperation effective of None \<Rightarrow> Inl 2 | Some call \<Rightarrow> Inr call)
      \<and> (\<forall>args'. \<not> truthy (args' ''help'') \<and> \<not> truthy (args' ''init_config'')
                  \<and> args' ''config_profile'' = args ''config_profile'' \<longrightarrow>
             finalInputData inp configFile args' = effective
           \<and> mainExec_config inp configFile (Some args') = mainExec_config inp configFile (Some args)
           \<and> mainExec_dispatch inp configFile (Some args') folderReady
                = mainExec_dispatch inp configFile (Some args) folderReady))"
proof -
  define effective where "effective =
     (appArgDefaults inp ++ orEmpty (getConfigData configFile (str ''default'')))
       ++ (case args ''config_profile'' of
             Some (JStr name) \<Rightarrow>
               if name = [] then Map.empty else orEmpty (getConfigData configFile name)
           | _ \<Rightarrow> Map.empty)"
  define invalid where "invalid =
     ((\<exists>a \<in> set (appArgs inp). mandatory a \<and> \<not> truthy (effective (argName a)))
      \<or> \<not> truthy (effective ''output_dir''))"
  have f: "finalInputData inp configFile a =
     (appArgDefaults inp ++ orEmpty (getConfigData configFile (str ''default'')))
       ++ profileData configFile a" for a
    by (simp add: finalInputData_def call_mergeData_four)
  have e: "finalInputData inp configFile args = effective"
    unfolding f effective_def profileData_selected ..
  have same: "finalInputData inp configFile args' = effective"
    if "args' ''config_profile'' = args ''config_profile''" for args'
    using profileData_depends[of args' args configFile] that e by (simp add: f)
  have c: "mainExec_config inp configFile (Some a) = (if invalid then Exit 2 else Proceed effective)"
    if "\<not> truthy (a ''help'')" "\<not> truthy (a ''init_config'')"
       "finalInputData inp configFile a = effective" for a
    using that by (auto simp add: mainExec_config_def invalid_def list_ex_iff)
  have d: "mainExec_dispatch inp configFile (Some a) folderReady =
          (if invalid \<or> \<not> folderReady (effective ''output_dir'') then Inl 2
           else case selectOperation effective of None \<Rightarrow> Inl 2 | Some call \<Rightarrow> Inr call)"
    if "\<not> truthy (a ''help'')" "\<not> truthy (a ''init_config'')"
       "finalInputData inp configFile a = effective" for a
    unfolding mainExec_dispatch_def c[OF that] by simp
  have all: "finalInputData inp configFile args' = effective
           \<and> mainExec_config inp configFile (Some args') = mainExec_config inp configFile (Some args)
           \<and> mainExec_dispatch inp configFile (Some args') folderReady
                = mainExec_dispatch inp configFile (Some args) folderReady"
    if "\<not> truthy (args' ''help'')" "\<not> truthy (args' ''init_config'')"
       "args' ''config_profile'' = args ''config_profile''" for args'
  proof -
    have s: "finalInputData inp configFile args' = effective" using same[of args'] that(3) by simp
    show ?thesis
      using c[OF that(1,2) s] d[OF that(1,2) s] c[OF nh ni e] d[OF nh ni e] s by simp
  qed
  show ?thesis
    unfolding Let_def effective_def[symmetric] invalid_def[symmetric]
    using e c[OF nh ni e] d[OF nh ni e] all by blast
qed


text \<open>
  A command line that gives all four mandatory arguments and asks for
  \<open>list_changes_files\<close> in \<open>/data/out\<close>. With \<open>--config_profile=nightly\<close> the run passes
  the validation on the values of the configuration file and calls
  \<open>doListingWithChanges\<close> on \<open>/srv/kb\<close> against the instance of the \<open>nightly\<close> profile
  (whose blank \<open>storage_mode\<close> overrides the default with \<open>null\<close>); without a selected
  profile it calls \<open>doListingWithFiles\<close>, the built-in default mode; without a
  configuration file it stops with status 2.
\<close>

theorem mainExec_drops_command_line_witness:
  "\<not> truthy (exArgsNightly ''help'') \<and> \<not> truthy (exArgsNightly ''init_config'')
   \<and> exArgsNightly ''config_profile'' = Some (JStr (str ''nightly''))
   \<and> exArgsNightly ''output_dir'' = Some (JStr (str ''/data/out''))
   \<and> exArgsNightly ''sn_instance_name'' = Some (JStr (str ''acme''))
   \<and> exArgsNightly ''operation_mode'' = Some (JStr (str ''list_changes_files''))
   \<and> finalInputData exInput exConfigFile exArgsNightly ''output_dir'' = Some (JStr (str ''/srv/kb''))
   \<and> finalInputData exInput exConfigFile exArgsNightly ''sn_instance_name'' = Some (JStr (str ''corp2''))
   \<and> finalInputData exInput exConfigFile exArgsNightly ''operation_mode'' = Some (JStr (str ''list_changes''))
   \<and> finalInputData exInput exConfigFile exArgsNightly ''storage_mode'' = Some JNull
   \<and> (case mainExec_config exInput exConfigFile (Some exArgsNightly) of
          Proceed final \<Rightarrow> final ''sn_user_name'' = Some (JStr (str ''svc''))
                           \<and> final ''sn_instance_name'' = Some (JStr (str ''corp2''))
        | Exit status \<Rightarrow> False)
   \<and> mainExec_dispatch exInput exConfigFile (Some exArgsNightly) (\<lambda>dir. dir = Some (JStr (str ''/srv/kb'')))
        = Inr (DoListingWithChanges,
               [Some (JStr (str ''/srv/kb'')), Some (JStr (str ''corp2'')), Some (JStr (str ''svc'')),
                Some (JStr (str ''secret'')), None])
   \<and> mainExec_dispatch exInput exConfigFile (Some exArgs) (\<lambda>dir. dir = Some (JStr (str ''/srv/kb'')))
        = Inr (DoListingWithFiles,
               [Some (JStr (str ''/srv/kb'')), Some (JStr (str ''corp'')), Some (JStr (str ''svc'')),
                Some (JStr (str ''secret'')), None])
   \<and> mainExec_config exInput None (Some exArgs) = Exit 2"
proof -
  have h: "\<not> truthy (exArgsNightly ''help'')" "\<not> truthy (exArgsNightly ''init_config'')"
          "\<not> truthy (exArgs ''help'')" "\<not> truthy (exArgs ''init_config'')"
    by (simp_all add: exArgsNightly_def exArgs_def)
  have a: "exArgsNightly ''config_profile'' = Some (JStr (str ''nightly''))"
          "exArgsNightly ''output_dir'' = Some (JStr (str ''/data/out''))"
          "exArgsNightly ''sn_instance_name'' = Some (JStr (str ''acme''))"
          "exArgsNightly ''operation_mode'' = Some (JStr (str ''list_changes_files''))"
    by (simp_all add: exArgsNightly_def exArgs_def)
  note ev = exArgsNightly_def exArgs_def exInput_def exConfigFile_def orEmpty_def getConfigData_def
    filterSetting_def trim_def js_whitespace_def str_def validStorageModes_def
    validOperationModes_def map_add_def
  note n = mainExec_drops_command_line[OF h(1,2), of exConfigFile exInput
             "\<lambda>dir. dir = Some (JStr (str ''/srv/kb''))", unfolded Let_def]
  note p = mainExec_drops_command_line[OF h(3,4), of exConfigFile exInput
             "\<lambda>dir. dir = Some (JStr (str ''/srv/kb''))", unfolded Let_def]
  note q = mainExec_drops_command_line[OF h(3,4), of None exInput "\<lambda>dir. True", unfolded Let_def]
  have f: "finalInputData exInput exConfigFile exArgsNightly ''output_dir'' = Some (JStr (str ''/srv/kb''))"
          "finalInputData exInput exConfigFile exArgsNightly ''sn_instance_name'' = Some (JStr (str ''corp2''))"
          "finalInputData exInput exConfigFile exArgsNightly ''operation_mode'' = Some (JStr (str ''list_changes''))"
          "finalInputData exInput exConfigFile exArgsNightly ''storage_mode'' = Some JNull"
    unfolding n[THEN conjunct1] by (simp_all add: ev)
  have c: "(case mainExec_config exInput exConfigFile (Some exArgsNightly) of
          Proceed final \<Rightarrow> final ''sn_user_name'' = Some (JStr (str ''svc''))
                           \<and> final ''sn_instance_name'' = Some (JStr (str ''corp2''))
        | Exit status \<Rightarrow> False)"
    unfolding n[THEN conjunct2, THEN conjunct1] by (simp add: ev)
  have d1: "mainExec_dispatch exInput exConfigFile (Some exArgsNightly) (\<lambda>dir. dir = Some (JStr (str ''/srv/kb'')))
        = Inr (DoListingWithChanges,
               [Some (JStr (str ''/srv/kb'')), Some (JStr (str ''corp2'')), Some (JStr (str ''svc'')),
                Some (JStr (str ''secret'')), None])"
    unfolding n[THEN conjunct2, THEN conjunct2, THEN conjunct1] by (simp add: ev selectOperation_def)
  have d2: "mainExec_dispatch exInput exConfigFile (Some exArgs) (\<lambda>dir. dir = Some (JStr (str ''/srv/kb'')))
        = Inr (DoListingWithFiles,
               [Some (JStr (str ''/srv/kb'')), Some (JStr (str ''corp'')), Some (JStr (str ''svc'')),
                Some (JStr (str ''secret'')), None])"
    unfolding p[THEN conjunct2, THEN conjunct2, THEN conjunct1] by (simp add: ev selectOperation_def)
  have e: "mainExec_config exInput None (Some exArgs) = Exit 2"
    unfolding q[THEN conjunct2, THEN conjunct1] by (simp add: ev)
  show ?thesis using h(1,2) a f c d1 d2 e by simp
qed

end
